theory Spec2Isabelle
  imports Main "HOL-Library.Signed_Division"
begin

section \<open>Console checkers: data model (checkersGame.cpp)\<close>

text \<open>
  The C++ program stores the board as an 8 x 8 array of owning pointers to heap pieces.
  Every pointer is created by one \<^verbatim>\<open>new\<close> and is held by exactly one grid slot, so a
  slot is modelled as an optional piece value and the grid as a function from
  coordinates to slots. Coordinates are C++ \<^verbatim>\<open>int\<close>s; they stay within a few units of
  the range 0..7, so they are modelled as unbounded integers. Integer division
  \<^verbatim>\<open>/\<close> truncates toward zero and is \<open>sdiv\<close>. Printing (the board display and the
  messages) has no effect on the game and is left out; the messages of the rejecting
  branches of the turn loop appear as the constructors of \<open>Rejection\<close>. The other
  program of the repository, tetris_game.cpp, shares no code with the checkers game.
\<close>

datatype Player = NONE | RED | BLACK

record Piece =
  owner :: Player
  isKing :: bool
  row :: int
  col :: int

definition BOARD_SIZE :: int where
  "BOARD_SIZE = 8"

text \<open>Constructor \<^verbatim>\<open>Piece(Player p, int r, int c)\<close>.\<close>

definition newPiece :: "Player \<Rightarrow> int \<Rightarrow> int \<Rightarrow> Piece" where
  "newPiece p r c = \<lparr>owner = p, isKing = False, row = r, col = c\<rparr>"

definition makeKing :: "Piece \<Rightarrow> Piece" where
  "makeKing p = p\<lparr>isKing := True\<rparr>"

definition setPosition :: "Piece \<Rightarrow> int \<Rightarrow> int \<Rightarrow> Piece" where
  "setPosition p r c = p\<lparr>row := r, col := c\<rparr>"

subsection \<open>Board\<close>

type_synonym Board = "int \<times> int \<Rightarrow> Piece option"

text \<open>
  The squares visited by \<^verbatim>\<open>for (r in rs) for (c = 0; c < BOARD_SIZE; ++c)\<close>, in
  the order of the nested loops.
\<close>

definition cells :: "int list \<Rightarrow> (int \<times> int) list" where
  "cells rs = concat (map (\<lambda>r. map (\<lambda>c. (r, c)) [0..BOARD_SIZE - 1]) rs)"

definition allCells :: "(int \<times> int) list" where
  "allCells = cells [0..BOARD_SIZE - 1]"

text \<open>The constructor \<^verbatim>\<open>Board()\<close>: every slot is the null pointer.\<close>

definition newBoard :: Board where
  "newBoard = (\<lambda>_. None)"

text \<open>
  \<^verbatim>\<open>initializeBoard\<close>: clear the 64 slots, then place Black on the dark squares of
  rows 0..2 and Red on those of rows 5..7. The operands of \<^verbatim>\<open>%\<close> are loop indices,
  hence non-negative, where \<^verbatim>\<open>%\<close> is \<open>mod\<close>.
\<close>

definition placePieces :: "Player \<Rightarrow> int list \<Rightarrow> Board \<Rightarrow> Board" where
  "placePieces p rs b =
     fold (\<lambda>(r, c) g. if (r + c) mod 2 \<noteq> 0 then g((r, c) := Some (newPiece p r c)) else g)
       (cells rs) b"

definition initializeBoard :: "Board \<Rightarrow> Board" where
  "initializeBoard b =
     (let cleared = fold (\<lambda>rc g. g(rc := None)) allCells b;
          withBlack = placePieces BLACK [0..2] cleared
      in placePieces RED [5..BOARD_SIZE - 1] withBlack)"

definition getPiece :: "Board \<Rightarrow> int \<Rightarrow> int \<Rightarrow> Piece option" where
  "getPiece b r c =
     (if r < 0 \<or> r \<ge> BOARD_SIZE \<or> c < 0 \<or> c \<ge> BOARD_SIZE then None else b (r, c))"

text \<open>
  \<^verbatim>\<open>movePiece\<close> and \<^verbatim>\<open>removePiece\<close> index the array without a bounds check; their
  callers pass coordinates that \<^verbatim>\<open>parseInput\<close> has checked. The two slot writes of
  \<^verbatim>\<open>movePiece\<close> are kept in the order of the source (target first, then source).
\<close>

definition movePiece :: "Board \<Rightarrow> int \<Rightarrow> int \<Rightarrow> int \<Rightarrow> int \<Rightarrow> Board" where
  "movePiece b r1 c1 r2 c2 =
     (case b (r1, c1) of
        None \<Rightarrow> b
      | Some piece \<Rightarrow> (b((r2, c2) := Some (setPosition piece r2 c2)))((r1, c1) := None))"

definition removePiece :: "Board \<Rightarrow> int \<Rightarrow> int \<Rightarrow> Board" where
  "removePiece b r c =
     (case b (r, c) of None \<Rightarrow> b | Some capturedPiece \<Rightarrow> b((r, c) := None))"

subsection \<open>Game manager\<close>

record CheckersGame =
  board :: Board
  currentPlayer :: Player

record Move =
  startR :: int
  startC :: int
  endR :: int
  endC :: int

definition mkMove :: "int \<Rightarrow> int \<Rightarrow> int \<Rightarrow> int \<Rightarrow> Move" where
  "mkMove r1 c1 r2 c2 = \<lparr>startR = r1, startC = c1, endR = r2, endC = c2\<rparr>"

definition isInBounds :: "int \<Rightarrow> int \<Rightarrow> bool" where
  "isInBounds r c \<longleftrightarrow> r \<ge> 0 \<and> r < BOARD_SIZE \<and> c \<ge> 0 \<and> c < BOARD_SIZE"

definition isSimpleMoveValid :: "CheckersGame \<Rightarrow> int \<Rightarrow> int \<Rightarrow> int \<Rightarrow> int \<Rightarrow> bool" where
  "isSimpleMoveValid g r1 c1 r2 c2 =
     (case getPiece (board g) r1 c1 of
        None \<Rightarrow> False
      | Some piece \<Rightarrow>
          if getPiece (board g) r2 c2 \<noteq> None then False
          else if \<bar>r2 - r1\<bar> \<noteq> 1 \<or> \<bar>c2 - c1\<bar> \<noteq> 1 then False
          else if \<not> isKing piece \<and> owner piece = RED \<and> r2 - r1 > 0 then False
          else if \<not> isKing piece \<and> owner piece = BLACK \<and> r2 - r1 < 0 then False
          else True)"

definition isJumpValid :: "CheckersGame \<Rightarrow> int \<Rightarrow> int \<Rightarrow> int \<Rightarrow> int \<Rightarrow> bool" where
  "isJumpValid g r1 c1 r2 c2 =
     (case getPiece (board g) r1 c1 of
        None \<Rightarrow> False
      | Some piece \<Rightarrow>
          if getPiece (board g) r2 c2 \<noteq> None then False
          else if \<bar>r2 - r1\<bar> \<noteq> 2 \<or> \<bar>c2 - c1\<bar> \<noteq> 2 then False
          else
            (let jumpedR = (r1 + r2) sdiv 2; jumpedC = (c1 + c2) sdiv 2 in
             case getPiece (board g) jumpedR jumpedC of
               None \<Rightarrow> False
             | Some jumpedPiece \<Rightarrow>
                 if owner jumpedPiece = owner piece \<or> owner jumpedPiece = NONE then False
                 else if \<not> isKing piece \<and> owner piece = RED \<and> r2 - r1 > 0 then False
                 else if \<not> isKing piece \<and> owner piece = BLACK \<and> r2 - r1 < 0 then False
                 else True))"

definition jumpDirections :: "(int \<times> int) list" where
  "jumpDirections = [(-2, -2), (-2, 2), (2, -2), (2, 2)]"

definition simpleDirections :: "(int \<times> int) list" where
  "simpleDirections = [(-1, -1), (-1, 1), (1, -1), (1, 1)]"

definition getPossibleJumpsForPiece :: "CheckersGame \<Rightarrow> int \<Rightarrow> int \<Rightarrow> Move list" where
  "getPossibleJumpsForPiece g r c =
     (case getPiece (board g) r c of
        None \<Rightarrow> []
      | Some piece \<Rightarrow>
          concat (map (\<lambda>(dr, dc).
              let r2 = r + dr; c2 = c + dc in
              if isInBounds r2 c2 \<and> isJumpValid g r c r2 c2 then [mkMove r c r2 c2] else [])
            jumpDirections))"

definition getAllPossibleJumps :: "CheckersGame \<Rightarrow> Move list" where
  "getAllPossibleJumps g =
     concat (map (\<lambda>(r, c).
         case getPiece (board g) r c of
           None \<Rightarrow> []
         | Some piece \<Rightarrow>
             if owner piece = currentPlayer g then getPossibleJumpsForPiece g r c else [])
       allCells)"

text \<open>
  The innermost loop of \<^verbatim>\<open>getAllPossibleSimpleMoves\<close>, over the four diagonal
  neighbours of one square.
\<close>

definition simpleMovesFrom :: "CheckersGame \<Rightarrow> int \<Rightarrow> int \<Rightarrow> Move list" where
  "simpleMovesFrom g r c =
     concat (map (\<lambda>(dr, dc).
         let r2 = r + dr; c2 = c + dc in
         if isInBounds r2 c2 \<and> isSimpleMoveValid g r c r2 c2 then [mkMove r c r2 c2] else [])
       simpleDirections)"

definition getAllPossibleSimpleMoves :: "CheckersGame \<Rightarrow> Move list" where
  "getAllPossibleSimpleMoves g =
     concat (map (\<lambda>(r, c).
         case getPiece (board g) r c of
           None \<Rightarrow> []
         | Some piece \<Rightarrow>
             if owner piece = currentPlayer g then simpleMovesFrom g r c else [])
       allCells)"

definition switchPlayer :: "CheckersGame \<Rightarrow> CheckersGame" where
  "switchPlayer g = g\<lparr>currentPlayer := (if currentPlayer g = RED then BLACK else RED)\<rparr>"

text \<open>
  Step 4 of \<^verbatim>\<open>executeMove\<close> (kinging): the piece on the landing square is promoted
  in place when it is Red on row 0 or Black on the last row.
\<close>

definition checkKinging :: "CheckersGame \<Rightarrow> int \<Rightarrow> int \<Rightarrow> CheckersGame" where
  "checkKinging g r2 c2 =
     (case getPiece (board g) r2 c2 of
        None \<Rightarrow> g
      | Some piece \<Rightarrow>
          if owner piece = RED \<and> r2 = 0
          then g\<lparr>board := (board g)((r2, c2) := Some (makeKing piece))\<rparr>
          else if owner piece = BLACK \<and> r2 = BOARD_SIZE - 1
          then g\<lparr>board := (board g)((r2, c2) := Some (makeKing piece))\<rparr>
          else g)"

text \<open>
  \<^verbatim>\<open>executeMove\<close> returns \<^verbatim>\<open>true\<close> when the same player has to go on jumping, and
  the updated game. The early \<^verbatim>\<open>return true\<close> of step 3 leaves before steps 4 and 5.
\<close>

definition executeMove :: "CheckersGame \<Rightarrow> int \<Rightarrow> int \<Rightarrow> int \<Rightarrow> int \<Rightarrow> bool \<times> CheckersGame" where
  "executeMove g r1 c1 r2 c2 =
     (let g1 = g\<lparr>board := movePiece (board g) r1 c1 r2 c2\<rparr> in
      if \<bar>r2 - r1\<bar> = 2 then
        (let capturedR = (r1 + r2) sdiv 2;
             capturedC = (c1 + c2) sdiv 2;
             g2 = g1\<lparr>board := removePiece (board g1) capturedR capturedC\<rparr>
         in if getPossibleJumpsForPiece g2 r2 c2 \<noteq> [] then (True, g2)
            else (False, switchPlayer (checkKinging g2 r2 c2)))
      else (False, switchPlayer (checkKinging g1 r2 c2)))"

text \<open>
  The counting loop of \<^verbatim>\<open>checkForWin\<close> keeps one counter for each side;
  \<open>countPieces b pl\<close> is the final value of the counter of \<open>pl\<close>.
\<close>

definition countPieces :: "Board \<Rightarrow> Player \<Rightarrow> nat" where
  "countPieces b pl =
     length (filter (\<lambda>(i, j). case getPiece b i j of None \<Rightarrow> False | Some p \<Rightarrow> owner p = pl)
       allCells)"

definition checkForWin :: "CheckersGame \<Rightarrow> Player" where
  "checkForWin g =
     (let redPieces = countPieces (board g) RED;
          blackPieces = countPieces (board g) BLACK
      in if redPieces = 0 then BLACK
         else if blackPieces = 0 then RED
         else if getAllPossibleJumps g = [] \<and> getAllPossibleSimpleMoves g = []
              then (if currentPlayer g = RED then BLACK else RED)
         else NONE)"

text \<open>
  The final checks of \<^verbatim>\<open>parseInput\<close>, on the four coordinates already decoded from
  the characters of the input line (the decoding itself is not modelled).
\<close>

definition parseInputChecks :: "int \<Rightarrow> int \<Rightarrow> int \<Rightarrow> int \<Rightarrow> bool" where
  "parseInputChecks r1 c1 r2 c2 =
     (if \<not> isInBounds r1 c1 \<or> \<not> isInBounds r2 c2 then False
      else if r1 = r2 \<and> c1 = c2 then False
      else True)"

text \<open>The constructor \<^verbatim>\<open>CheckersGame() : currentPlayer(RED)\<close>.\<close>

definition newGame :: CheckersGame where
  "newGame = \<lparr>board = newBoard, currentPlayer = RED\<rparr>"

subsection \<open>The turn loop of \<^verbatim>\<open>run\<close>\<close>

text \<open>
  One pass through the body of the inner \<^verbatim>\<open>while (!turnComplete)\<close> loop, from
  \<^verbatim>\<open>parseInput\<close> on. The rejections are named after the message the branch prints.
  \<open>jumpIsForced\<close> is the local variable of \<^verbatim>\<open>run\<close>, computed once before the inner
  loop.
\<close>

datatype Rejection =
    InvalidInput
  | InvalidSelection
  | InvalidJumpMustCapture
  | JumpMandatory
  | InvalidJumpNoCapture
  | InvalidSimpleMove

datatype Outcome = Rejected Rejection | Executed bool

definition submitMove :: "bool \<Rightarrow> CheckersGame \<Rightarrow> int \<Rightarrow> int \<Rightarrow> int \<Rightarrow> int \<Rightarrow> Outcome \<times> CheckersGame" where
  "submitMove jumpIsForced g r1 c1 r2 c2 =
     (if \<not> parseInputChecks r1 c1 r2 c2 then (Rejected InvalidInput, g)
      else case getPiece (board g) r1 c1 of
        None \<Rightarrow> (Rejected InvalidSelection, g)
      | Some piece \<Rightarrow>
          if owner piece \<noteq> currentPlayer g then (Rejected InvalidSelection, g)
          else
            (let isJump = (\<bar>r2 - r1\<bar> = 2) in
             if jumpIsForced then
               (if isJump then
                  (if isJumpValid g r1 c1 r2 c2
                   then (let (keepJumping, g') = executeMove g r1 c1 r2 c2
                         in (Executed keepJumping, g'))
                   else (Rejected InvalidJumpMustCapture, g))
                else (Rejected JumpMandatory, g))
             else
               (if isJump then
                  (if isJumpValid g r1 c1 r2 c2
                   then (let (keepJumping, g') = executeMove g r1 c1 r2 c2
                         in (Executed keepJumping, g'))
                   else (Rejected InvalidJumpNoCapture, g))
                else if isSimpleMoveValid g r1 c1 r2 c2
                then (let (keepJumping, g') = executeMove g r1 c1 r2 c2
                      in (Executed False, g'))
                else (Rejected InvalidSimpleMove, g))))"

text \<open>
  The nested loops of \<^verbatim>\<open>run\<close> as one transition per input line. A phase records
  where the program waits: inside the inner loop with its \<open>jumpIsForced\<close>, or stopped
  after a win or after the input \<^verbatim>\<open>exit\<close>.
\<close>

datatype Input = ExitLine | MoveLine int int int int

datatype Phase = AwaitingMove bool | GameOver Player | Exited

record RunState =
  game :: CheckersGame
  phase :: Phase

text \<open>The top of the outer loop body: the win check, then \<open>jumpIsForced\<close>.\<close>

definition beginTurn :: "CheckersGame \<Rightarrow> RunState" where
  "beginTurn g =
     (let winner = checkForWin g in
      if winner \<noteq> NONE then \<lparr>game = g, phase = GameOver winner\<rparr>
      else \<lparr>game = g, phase = AwaitingMove (getAllPossibleJumps g \<noteq> [])\<rparr>)"

definition runStep :: "RunState \<Rightarrow> Input \<Rightarrow> RunState" where
  "runStep s inp =
     (case phase s of
        GameOver w \<Rightarrow> s
      | Exited \<Rightarrow> s
      | AwaitingMove jumpIsForced \<Rightarrow>
          (case inp of
             ExitLine \<Rightarrow> s\<lparr>phase := Exited\<rparr>
           | MoveLine r1 c1 r2 c2 \<Rightarrow>
               (case submitMove jumpIsForced (game s) r1 c1 r2 c2 of
                  (Rejected why, g') \<Rightarrow> \<lparr>game = g', phase = AwaitingMove jumpIsForced\<rparr>
                | (Executed True, g') \<Rightarrow> \<lparr>game = g', phase = AwaitingMove jumpIsForced\<rparr>
                | (Executed False, g') \<Rightarrow> beginTurn g')))"

definition startRun :: RunState where
  "startRun = beginTurn (newGame\<lparr>board := initializeBoard (board newGame)\<rparr>)"

definition run :: "Input list \<Rightarrow> RunState" where
  "run inputs = foldl runStep startRun inputs"

section \<open>The specification's rules, as stated\<close>

text \<open>
  The predicates of this section follow the wording of the specification (sides,
  directionality, move legality, terminal states) and not the code; the theorems
  below compare them with the functions of the program.
\<close>

fun specOpponent :: "Player \<Rightarrow> Player" where
  "specOpponent RED = BLACK"
| "specOpponent BLACK = RED"
| "specOpponent NONE = NONE"

definition specDirectionOk :: "Piece \<Rightarrow> int \<Rightarrow> int \<Rightarrow> bool" where
  "specDirectionOk p r1 r2 \<longleftrightarrow>
     isKing p \<or> (owner p = RED \<and> r2 < r1) \<or> (owner p = BLACK \<and> r2 > r1)"

definition specJumpLegal :: "CheckersGame \<Rightarrow> int \<Rightarrow> int \<Rightarrow> int \<Rightarrow> int \<Rightarrow> bool" where
  "specJumpLegal g r1 c1 r2 c2 \<longleftrightarrow>
     (case getPiece (board g) r1 c1 of
        None \<Rightarrow> False
      | Some p \<Rightarrow>
          owner p = currentPlayer g \<and>
          isInBounds r2 c2 \<and> getPiece (board g) r2 c2 = None \<and>
          \<bar>r2 - r1\<bar> = 2 \<and> \<bar>c2 - c1\<bar> = 2 \<and>
          (case getPiece (board g) ((r1 + r2) div 2) ((c1 + c2) div 2) of
             None \<Rightarrow> False
           | Some q \<Rightarrow> owner q = specOpponent (currentPlayer g)) \<and>
          specDirectionOk p r1 r2)"

definition specSimpleLegal :: "CheckersGame \<Rightarrow> int \<Rightarrow> int \<Rightarrow> int \<Rightarrow> int \<Rightarrow> bool" where
  "specSimpleLegal g r1 c1 r2 c2 \<longleftrightarrow>
     (case getPiece (board g) r1 c1 of
        None \<Rightarrow> False
      | Some p \<Rightarrow>
          owner p = currentPlayer g \<and>
          isInBounds r2 c2 \<and> getPiece (board g) r2 c2 = None \<and>
          \<bar>r2 - r1\<bar> = 1 \<and> \<bar>c2 - c1\<bar> = 1 \<and>
          specDirectionOk p r1 r2)"

definition specNoPieces :: "Board \<Rightarrow> Player \<Rightarrow> bool" where
  "specNoPieces b side \<longleftrightarrow>
     (\<forall>(r, c) \<in> set allCells. case getPiece b r c of None \<Rightarrow> True | Some p \<Rightarrow> owner p \<noteq> side)"

definition specNoLegalAction :: "CheckersGame \<Rightarrow> bool" where
  "specNoLegalAction g \<longleftrightarrow>
     (\<forall>(r1, c1) \<in> set allCells. \<forall>(r2, c2) \<in> set allCells.
        \<not> specJumpLegal g r1 c1 r2 c2 \<and> \<not> specSimpleLegal g r1 c1 r2 c2)"

text \<open>
  The terminal-state check: a side without pieces loses, then a side to move without a
  legal action loses. For a board without any piece the specification names no winner;
  the count of Red is taken first here, as the program takes it.
\<close>

definition specCheckWin :: "CheckersGame \<Rightarrow> Player" where
  "specCheckWin g =
     (if specNoPieces (board g) RED then BLACK
      else if specNoPieces (board g) BLACK then RED
      else if specNoLegalAction g then specOpponent (currentPlayer g)
      else NONE)"

text \<open>
  The steps of the specification's move execution, in its order: relocate, remove the
  captured piece of a jump, test for a continuation of the same piece, promote, flip.
\<close>

definition specRelocate :: "CheckersGame \<Rightarrow> int \<Rightarrow> int \<Rightarrow> int \<Rightarrow> int \<Rightarrow> CheckersGame" where
  "specRelocate g r1 c1 r2 c2 = g\<lparr>board := movePiece (board g) r1 c1 r2 c2\<rparr>"

definition specRemoveCaptured :: "CheckersGame \<Rightarrow> int \<Rightarrow> int \<Rightarrow> int \<Rightarrow> int \<Rightarrow> CheckersGame" where
  "specRemoveCaptured g r1 c1 r2 c2 =
     (if \<bar>r2 - r1\<bar> = 2
      then g\<lparr>board := removePiece (board g) ((r1 + r2) div 2) ((c1 + c2) div 2)\<rparr>
      else g)"

definition specContinuation :: "CheckersGame \<Rightarrow> int \<Rightarrow> int \<Rightarrow> int \<Rightarrow> bool" where
  "specContinuation g r1 r2 c2 \<longleftrightarrow>
     \<bar>r2 - r1\<bar> = 2 \<and> (\<exists>(r3, c3) \<in> set allCells. specJumpLegal g r2 c2 r3 c3)"

definition specPromote :: "CheckersGame \<Rightarrow> int \<Rightarrow> int \<Rightarrow> CheckersGame" where
  "specPromote g r c =
     (case getPiece (board g) r c of
        None \<Rightarrow> g
      | Some p \<Rightarrow>
          if (owner p = RED \<and> r = 0) \<or> (owner p = BLACK \<and> r = 7)
          then g\<lparr>board := (board g)((r, c) := Some (p\<lparr>isKing := True\<rparr>))\<rparr>
          else g)"

definition specFlip :: "CheckersGame \<Rightarrow> CheckersGame" where
  "specFlip g = g\<lparr>currentPlayer := specOpponent (currentPlayer g)\<rparr>"

definition specApplyMove :: "CheckersGame \<Rightarrow> int \<Rightarrow> int \<Rightarrow> int \<Rightarrow> int \<Rightarrow> bool \<times> CheckersGame" where
  "specApplyMove g r1 c1 r2 c2 =
     (let relocated = specRelocate g r1 c1 r2 c2;
          captured = specRemoveCaptured relocated r1 c1 r2 c2
      in if specContinuation captured r1 r2 c2 then (True, captured)
         else (False, specFlip (specPromote captured r2 c2)))"

text \<open>A move the legality check has passed: a legal jump or a legal simple move.\<close>

definition specLegalMove :: "CheckersGame \<Rightarrow> int \<Rightarrow> int \<Rightarrow> int \<Rightarrow> int \<Rightarrow> bool" where
  "specLegalMove g r1 c1 r2 c2 \<longleftrightarrow> specJumpLegal g r1 c1 r2 c2 \<or> specSimpleLegal g r1 c1 r2 c2"

text \<open>
  The board invariant of the specification: an occupied slot holds a piece that stores
  the slot's own coordinates, and only dark squares (odd coordinate sum) are occupied.
\<close>

definition boardInvariant :: "Board \<Rightarrow> bool" where
  "boardInvariant b \<longleftrightarrow>
     (\<forall>(r, c) \<in> set allCells.
        case getPiece b r c of
          None \<Rightarrow> True
        | Some p \<Rightarrow> row p = r \<and> col p = c \<and> (r + c) mod 2 \<noteq> 0)"

text \<open>What holds of every state the turn loop reaches.\<close>

definition runInvariant :: "RunState \<Rightarrow> bool" where
  "runInvariant s \<longleftrightarrow> boardInvariant (board (game s)) \<and> currentPlayer (game s) \<noteq> NONE"

text \<open>
  The flag \<open>jumpIsForced\<close> of a waiting turn loop agrees with the jumps that the current
  state offers.
\<close>

definition flagFresh :: "RunState \<Rightarrow> bool" where
  "flagFresh s \<longleftrightarrow>
     (case phase s of
        AwaitingMove f \<Rightarrow> f = (getAllPossibleJumps (game s) \<noteq> [])
      | GameOver w \<Rightarrow> True
      | Exited \<Rightarrow> True)"

section \<open>Squares, pieces and move generation\<close>

lemma set_allCells: "set allCells = {(r, c). isInBounds r c}"
  by (force simp: allCells_def cells_def isInBounds_def BOARD_SIZE_def)

lemma in_allCells: "(r, c) \<in> set allCells \<longleftrightarrow> isInBounds r c"
  by (simp add: set_allCells)

lemma getPiece_Some_inBounds: "getPiece b r c = Some p \<Longrightarrow> isInBounds r c"
  by (auto simp: getPiece_def isInBounds_def split: if_splits)

lemma getPiece_inBounds: "isInBounds r c \<Longrightarrow> getPiece b r c = b (r, c)"
  by (auto simp: getPiece_def isInBounds_def)

lemma getPiece_Some_cell: "getPiece b r c = Some p \<Longrightarrow> b (r, c) = Some p"
  by (auto simp: getPiece_def split: if_splits)

lemma sdiv_double: "(2 * a) sdiv 2 = (a::int)"
proof (cases "0 \<le> a")
  case True
  then show ?thesis by (simp add: signed_divide_int_def sgn_if)
next
  case False
  then have "\<bar>2 * a\<bar> = 2 * (- a)" by simp
  then have "\<bar>2 * a\<bar> div 2 = - a" by simp
  with False show ?thesis by (simp add: signed_divide_int_def sgn_if)
qed

lemma midpoint_sdiv: "\<bar>b - a\<bar> = (2::int) \<Longrightarrow> (a + b) sdiv 2 = (a + b) div 2"
proof -
  assume "\<bar>b - a\<bar> = 2"
  then consider "b = a + 2" | "b = a - 2" by fastforce
  then show ?thesis
  proof cases
    case 1
    then have "a + b = 2 * (a + 1)" by simp
    then show ?thesis using sdiv_double [of "a + 1"] by simp
  next
    case 2
    then have "a + b = 2 * (a - 1)" by simp
    then show ?thesis using sdiv_double [of "a - 1"] by simp
  qed
qed

lemma opponent_iff:
  "cur \<noteq> NONE \<Longrightarrow> (q \<noteq> cur \<and> q \<noteq> NONE) \<longleftrightarrow> q = specOpponent cur"
  by (cases cur; cases q) simp_all

lemma opponent_code: "cur \<noteq> NONE \<Longrightarrow> (if cur = RED then BLACK else RED) = specOpponent cur"
  by (cases cur) simp_all

lemma specOpponent_neq: "cur \<noteq> NONE \<Longrightarrow> specOpponent cur \<noteq> cur"
  by (cases cur) simp_all

lemma direction_iff:
  "owner p \<noteq> NONE \<Longrightarrow> r2 \<noteq> r1 \<Longrightarrow>
   (\<not> (\<not> isKing p \<and> owner p = RED \<and> r2 - r1 > 0) \<and>
    \<not> (\<not> isKing p \<and> owner p = BLACK \<and> r2 - r1 < 0)) \<longleftrightarrow> specDirectionOk p r1 r2"
  by (cases "owner p") (auto simp: specDirectionOk_def)

lemma isJumpValid_guarded_iff:
  assumes "currentPlayer g \<noteq> NONE"
  shows "(isInBounds r2 c2 \<and>
          (\<exists>p. getPiece (board g) r1 c1 = Some p \<and> owner p = currentPlayer g) \<and>
          isJumpValid g r1 c1 r2 c2) \<longleftrightarrow> specJumpLegal g r1 c1 r2 c2"
proof (cases "getPiece (board g) r1 c1")
  case None
  then show ?thesis by (simp add: specJumpLegal_def)
next
  case (Some p)
  show ?thesis
  proof (cases "owner p = currentPlayer g \<and> \<bar>r2 - r1\<bar> = 2 \<and> \<bar>c2 - c1\<bar> = 2")
    case False
    with Some show ?thesis
      by (auto simp: specJumpLegal_def isJumpValid_def)
  next
    case True
    then have own: "owner p = currentPlayer g" and dr: "\<bar>r2 - r1\<bar> = 2" and dc: "\<bar>c2 - c1\<bar> = 2"
      by simp_all
    have mr: "(r1 + r2) sdiv 2 = (r1 + r2) div 2" using dr by (rule midpoint_sdiv)
    have mc: "(c1 + c2) sdiv 2 = (c1 + c2) div 2" using dc by (rule midpoint_sdiv)
    have ne: "r2 \<noteq> r1" using dr by auto
    have pn: "owner p \<noteq> NONE" using own assms by simp
    note dir = direction_iff [OF pn ne]
    show ?thesis
    proof (cases "getPiece (board g) ((r1 + r2) div 2) ((c1 + c2) div 2)")
      case None
      with Some show ?thesis
        by (simp add: specJumpLegal_def isJumpValid_def mr mc)
    next
      case (Some q)
      have opp: "(owner q \<noteq> currentPlayer g \<and> owner q \<noteq> NONE) \<longleftrightarrow> owner q = specOpponent (currentPlayer g)"
        using assms by (rule opponent_iff)
      from \<open>getPiece (board g) r1 c1 = Some p\<close> Some own dr dc dir opp show ?thesis
        by (auto simp: specJumpLegal_def isJumpValid_def mr mc Let_def)
    qed
  qed
qed

lemma in_jumpsForPiece:
  "m \<in> set (getPossibleJumpsForPiece g r c) \<longleftrightarrow>
     (\<exists>r2 c2. m = mkMove r c r2 c2 \<and> isInBounds r2 c2 \<and> isJumpValid g r c r2 c2)"
proof (cases "getPiece (board g) r c")
  case None
  then show ?thesis by (simp add: getPossibleJumpsForPiece_def isJumpValid_def)
next
  case (Some p)
  have geo: "isJumpValid g r c r2 c2 \<Longrightarrow> (r2 = r - 2 \<or> r2 = r + 2) \<and> (c2 = c - 2 \<or> c2 = c + 2)" for r2 c2
    by (auto simp: isJumpValid_def split: option.splits if_splits)
  show ?thesis
  proof
    assume "m \<in> set (getPossibleJumpsForPiece g r c)"
    then show "\<exists>r2 c2. m = mkMove r c r2 c2 \<and> isInBounds r2 c2 \<and> isJumpValid g r c r2 c2"
      using Some by (auto simp: getPossibleJumpsForPiece_def jumpDirections_def Let_def split: if_splits)
  next
    assume "\<exists>r2 c2. m = mkMove r c r2 c2 \<and> isInBounds r2 c2 \<and> isJumpValid g r c r2 c2"
    then obtain r2 c2 where m: "m = mkMove r c r2 c2" and ib: "isInBounds r2 c2"
      and jv: "isJumpValid g r c r2 c2" by blast
    from geo [OF jv] consider "r2 = r - 2 \<and> c2 = c - 2" | "r2 = r - 2 \<and> c2 = c + 2"
      | "r2 = r + 2 \<and> c2 = c - 2" | "r2 = r + 2 \<and> c2 = c + 2" by blast
    then show "m \<in> set (getPossibleJumpsForPiece g r c)"
      using Some m ib jv
      by cases (simp_all add: getPossibleJumpsForPiece_def jumpDirections_def Let_def)
  qed
qed

lemma in_allJumps:
  "m \<in> set (getAllPossibleJumps g) \<longleftrightarrow>
     (\<exists>r c r2 c2 p. m = mkMove r c r2 c2 \<and> getPiece (board g) r c = Some p \<and>
        owner p = currentPlayer g \<and> isInBounds r2 c2 \<and> isJumpValid g r c r2 c2)"
proof
  assume "m \<in> set (getAllPossibleJumps g)"
  then obtain r c where "(r, c) \<in> set allCells"
    and "m \<in> set (case getPiece (board g) r c of None \<Rightarrow> []
           | Some piece \<Rightarrow> if owner piece = currentPlayer g then getPossibleJumpsForPiece g r c else [])"
    by (auto simp: getAllPossibleJumps_def)
  then obtain p where "getPiece (board g) r c = Some p" and "owner p = currentPlayer g"
    and "m \<in> set (getPossibleJumpsForPiece g r c)"
    by (cases "getPiece (board g) r c") (auto split: if_splits)
  then show "\<exists>r c r2 c2 p. m = mkMove r c r2 c2 \<and> getPiece (board g) r c = Some p \<and>
        owner p = currentPlayer g \<and> isInBounds r2 c2 \<and> isJumpValid g r c r2 c2"
    unfolding in_jumpsForPiece by blast
next
  assume "\<exists>r c r2 c2 p. m = mkMove r c r2 c2 \<and> getPiece (board g) r c = Some p \<and>
        owner p = currentPlayer g \<and> isInBounds r2 c2 \<and> isJumpValid g r c r2 c2"
  then obtain r c r2 c2 p where m: "m = mkMove r c r2 c2" and gp: "getPiece (board g) r c = Some p"
    and own: "owner p = currentPlayer g" and ib: "isInBounds r2 c2" and jv: "isJumpValid g r c r2 c2"
    by blast
  have cell: "(r, c) \<in> set allCells" using gp by (simp add: in_allCells getPiece_Some_inBounds)
  have "m \<in> set (getPossibleJumpsForPiece g r c)" using m ib jv by (auto simp: in_jumpsForPiece)
  with cell gp own show "m \<in> set (getAllPossibleJumps g)"
    by (force simp: getAllPossibleJumps_def)
qed

lemma mkMove_eq: "mkMove a b c d = mkMove a' b' c' d' \<longleftrightarrow> a = a' \<and> b = b' \<and> c = c' \<and> d = d'"
  by (simp add: mkMove_def)

lemma in_allJumps_mk:
  "mkMove r1 c1 r2 c2 \<in> set (getAllPossibleJumps g) \<longleftrightarrow>
     isInBounds r2 c2 \<and> (\<exists>p. getPiece (board g) r1 c1 = Some p \<and> owner p = currentPlayer g) \<and>
     isJumpValid g r1 c1 r2 c2"
  unfolding in_allJumps mkMove_eq by blast

lemma isSimpleMoveValid_guarded_iff:
  assumes "currentPlayer g \<noteq> NONE"
  shows "(isInBounds r2 c2 \<and>
          (\<exists>p. getPiece (board g) r1 c1 = Some p \<and> owner p = currentPlayer g) \<and>
          isSimpleMoveValid g r1 c1 r2 c2) \<longleftrightarrow> specSimpleLegal g r1 c1 r2 c2"
proof (cases "getPiece (board g) r1 c1")
  case None
  then show ?thesis by (simp add: specSimpleLegal_def)
next
  case (Some p)
  show ?thesis
  proof (cases "owner p = currentPlayer g \<and> \<bar>r2 - r1\<bar> = 1 \<and> \<bar>c2 - c1\<bar> = 1")
    case False
    with Some show ?thesis
      by (auto simp: specSimpleLegal_def isSimpleMoveValid_def)
  next
    case True
    then have own: "owner p = currentPlayer g" and dr: "\<bar>r2 - r1\<bar> = 1" and dc: "\<bar>c2 - c1\<bar> = 1"
      by simp_all
    have ne: "r2 \<noteq> r1" using dr by auto
    have pn: "owner p \<noteq> NONE" using own assms by simp
    note dir = direction_iff [OF pn ne]
    from Some own dr dc dir show ?thesis
      by (auto simp: specSimpleLegal_def isSimpleMoveValid_def)
  qed
qed

lemma in_simpleMovesFrom:
  "m \<in> set (simpleMovesFrom g r c) \<longleftrightarrow>
     (\<exists>r2 c2. m = mkMove r c r2 c2 \<and> isInBounds r2 c2 \<and> isSimpleMoveValid g r c r2 c2)"
proof
  assume "m \<in> set (simpleMovesFrom g r c)"
  then show "\<exists>r2 c2. m = mkMove r c r2 c2 \<and> isInBounds r2 c2 \<and> isSimpleMoveValid g r c r2 c2"
    by (auto simp: simpleMovesFrom_def simpleDirections_def Let_def split: if_splits)
next
  assume "\<exists>r2 c2. m = mkMove r c r2 c2 \<and> isInBounds r2 c2 \<and> isSimpleMoveValid g r c r2 c2"
  then obtain r2 c2 where m: "m = mkMove r c r2 c2" and ib: "isInBounds r2 c2"
    and sv: "isSimpleMoveValid g r c r2 c2" by blast
  have "(r2 = r - 1 \<or> r2 = r + 1) \<and> (c2 = c - 1 \<or> c2 = c + 1)"
    using sv by (auto simp: isSimpleMoveValid_def split: option.splits if_splits)
  then consider "r2 = r - 1 \<and> c2 = c - 1" | "r2 = r - 1 \<and> c2 = c + 1"
    | "r2 = r + 1 \<and> c2 = c - 1" | "r2 = r + 1 \<and> c2 = c + 1" by blast
  then show "m \<in> set (simpleMovesFrom g r c)"
    using m ib sv by cases (simp_all add: simpleMovesFrom_def simpleDirections_def Let_def)
qed

lemma in_allSimpleMoves:
  "m \<in> set (getAllPossibleSimpleMoves g) \<longleftrightarrow>
     (\<exists>r c r2 c2 p. m = mkMove r c r2 c2 \<and> getPiece (board g) r c = Some p \<and>
        owner p = currentPlayer g \<and> isInBounds r2 c2 \<and> isSimpleMoveValid g r c r2 c2)"
proof
  assume "m \<in> set (getAllPossibleSimpleMoves g)"
  then obtain r c where "(r, c) \<in> set allCells"
    and "m \<in> set (case getPiece (board g) r c of None \<Rightarrow> []
           | Some piece \<Rightarrow> if owner piece = currentPlayer g then simpleMovesFrom g r c else [])"
    by (auto simp: getAllPossibleSimpleMoves_def)
  then obtain p where "getPiece (board g) r c = Some p" and "owner p = currentPlayer g"
    and "m \<in> set (simpleMovesFrom g r c)"
    by (cases "getPiece (board g) r c") (auto split: if_splits)
  then show "\<exists>r c r2 c2 p. m = mkMove r c r2 c2 \<and> getPiece (board g) r c = Some p \<and>
        owner p = currentPlayer g \<and> isInBounds r2 c2 \<and> isSimpleMoveValid g r c r2 c2"
    unfolding in_simpleMovesFrom by blast
next
  assume "\<exists>r c r2 c2 p. m = mkMove r c r2 c2 \<and> getPiece (board g) r c = Some p \<and>
        owner p = currentPlayer g \<and> isInBounds r2 c2 \<and> isSimpleMoveValid g r c r2 c2"
  then obtain r c r2 c2 p where m: "m = mkMove r c r2 c2" and gp: "getPiece (board g) r c = Some p"
    and own: "owner p = currentPlayer g" and ib: "isInBounds r2 c2"
    and sv: "isSimpleMoveValid g r c r2 c2"
    by blast
  have cell: "(r, c) \<in> set allCells" using gp by (simp add: in_allCells getPiece_Some_inBounds)
  have "m \<in> set (simpleMovesFrom g r c)" using m ib sv by (auto simp: in_simpleMovesFrom)
  with cell gp own show "m \<in> set (getAllPossibleSimpleMoves g)"
    by (force simp: getAllPossibleSimpleMoves_def)
qed

lemma specJumpLegal_from_inBounds: "specJumpLegal g r1 c1 r2 c2 \<Longrightarrow> isInBounds r1 c1 \<and> isInBounds r2 c2"
  by (auto simp: specJumpLegal_def getPiece_Some_inBounds split: option.splits)

lemma specSimpleLegal_from_inBounds: "specSimpleLegal g r1 c1 r2 c2 \<Longrightarrow> isInBounds r1 c1 \<and> isInBounds r2 c2"
  by (auto simp: specSimpleLegal_def getPiece_Some_inBounds split: option.splits)

lemma specJumpLegal_parse: "specJumpLegal g r1 c1 r2 c2 \<Longrightarrow> parseInputChecks r1 c1 r2 c2 \<and> \<bar>r2 - r1\<bar> = 2"
  using specJumpLegal_from_inBounds [of g r1 c1 r2 c2]
  by (auto simp: parseInputChecks_def specJumpLegal_def split: option.splits)

lemma allJumps_empty_iff:
  assumes "currentPlayer g \<noteq> NONE"
  shows "getAllPossibleJumps g = [] \<longleftrightarrow> (\<forall>r1 c1 r2 c2. \<not> specJumpLegal g r1 c1 r2 c2)"
proof -
  have "getAllPossibleJumps g = [] \<longleftrightarrow> (\<forall>m. m \<notin> set (getAllPossibleJumps g))"
    by (cases "getAllPossibleJumps g") auto
  also have "\<dots> \<longleftrightarrow> (\<forall>r1 c1 r2 c2. \<not> (isInBounds r2 c2 \<and>
          (\<exists>p. getPiece (board g) r1 c1 = Some p \<and> owner p = currentPlayer g) \<and>
          isJumpValid g r1 c1 r2 c2))"
    unfolding in_allJumps by blast
  also have "\<dots> \<longleftrightarrow> (\<forall>r1 c1 r2 c2. \<not> specJumpLegal g r1 c1 r2 c2)"
    unfolding isJumpValid_guarded_iff [OF assms] ..
  finally show ?thesis .
qed

lemma allSimpleMoves_empty_iff:
  assumes "currentPlayer g \<noteq> NONE"
  shows "getAllPossibleSimpleMoves g = [] \<longleftrightarrow> (\<forall>r1 c1 r2 c2. \<not> specSimpleLegal g r1 c1 r2 c2)"
proof -
  have "getAllPossibleSimpleMoves g = [] \<longleftrightarrow> (\<forall>m. m \<notin> set (getAllPossibleSimpleMoves g))"
    by (cases "getAllPossibleSimpleMoves g") auto
  also have "\<dots> \<longleftrightarrow> (\<forall>r1 c1 r2 c2. \<not> (isInBounds r2 c2 \<and>
          (\<exists>p. getPiece (board g) r1 c1 = Some p \<and> owner p = currentPlayer g) \<and>
          isSimpleMoveValid g r1 c1 r2 c2))"
    unfolding in_allSimpleMoves by blast
  also have "\<dots> \<longleftrightarrow> (\<forall>r1 c1 r2 c2. \<not> specSimpleLegal g r1 c1 r2 c2)"
    unfolding isSimpleMoveValid_guarded_iff [OF assms] ..
  finally show ?thesis .
qed

lemma noLegalAction_iff:
  "specNoLegalAction g \<longleftrightarrow>
     (\<forall>r1 c1 r2 c2. \<not> specJumpLegal g r1 c1 r2 c2) \<and> (\<forall>r1 c1 r2 c2. \<not> specSimpleLegal g r1 c1 r2 c2)"
proof
  assume "specNoLegalAction g"
  then have a: "isInBounds r1 c1 \<Longrightarrow> isInBounds r2 c2 \<Longrightarrow>
      \<not> specJumpLegal g r1 c1 r2 c2 \<and> \<not> specSimpleLegal g r1 c1 r2 c2" for r1 c1 r2 c2
    unfolding specNoLegalAction_def set_allCells by blast
  show "(\<forall>r1 c1 r2 c2. \<not> specJumpLegal g r1 c1 r2 c2) \<and> (\<forall>r1 c1 r2 c2. \<not> specSimpleLegal g r1 c1 r2 c2)"
    using a specJumpLegal_from_inBounds specSimpleLegal_from_inBounds by blast
next
  assume "(\<forall>r1 c1 r2 c2. \<not> specJumpLegal g r1 c1 r2 c2) \<and> (\<forall>r1 c1 r2 c2. \<not> specSimpleLegal g r1 c1 r2 c2)"
  then show "specNoLegalAction g"
    by (simp add: specNoLegalAction_def)
qed

lemma countPieces_zero: "countPieces b side = 0 \<longleftrightarrow> specNoPieces b side"
  by (auto simp: countPieces_def specNoPieces_def filter_empty_conv split: option.splits)

section \<open>The body of the turn loop\<close>

lemma submitMove_rejected: "submitMove f g r1 c1 r2 c2 = (Rejected why, g') \<Longrightarrow> g' = g"
  by (auto simp: submitMove_def Let_def split: if_splits option.splits prod.splits)

lemma submitMove_executed_iff:
  "(\<exists>k g'. submitMove f g r1 c1 r2 c2 = (Executed k, g')) \<longleftrightarrow>
     parseInputChecks r1 c1 r2 c2 \<and>
     (\<exists>p. getPiece (board g) r1 c1 = Some p \<and> owner p = currentPlayer g) \<and>
     (if \<bar>r2 - r1\<bar> = 2 then isJumpValid g r1 c1 r2 c2
      else \<not> f \<and> isSimpleMoveValid g r1 c1 r2 c2)"
  by (auto simp: submitMove_def Let_def split: if_splits option.splits prod.splits)

lemma executeMove_simple_False: "\<bar>r2 - r1\<bar> \<noteq> 2 \<Longrightarrow> fst (executeMove g r1 c1 r2 c2) = False"
  by (simp add: executeMove_def Let_def)

lemma submitMove_executed:
  assumes "submitMove f g r1 c1 r2 c2 = (Executed k, g')"
  shows "parseInputChecks r1 c1 r2 c2 \<and>
         (\<exists>p. getPiece (board g) r1 c1 = Some p \<and> owner p = currentPlayer g) \<and>
         (if \<bar>r2 - r1\<bar> = 2 then isJumpValid g r1 c1 r2 c2
          else \<not> f \<and> isSimpleMoveValid g r1 c1 r2 c2) \<and>
         executeMove g r1 c1 r2 c2 = (k, g')"
proof -
  have ex: "parseInputChecks r1 c1 r2 c2 \<and>
     (\<exists>p. getPiece (board g) r1 c1 = Some p \<and> owner p = currentPlayer g) \<and>
     (if \<bar>r2 - r1\<bar> = 2 then isJumpValid g r1 c1 r2 c2
      else \<not> f \<and> isSimpleMoveValid g r1 c1 r2 c2)"
    using assms submitMove_executed_iff [of f g r1 c1 r2 c2] by blast
  show ?thesis
  proof (cases "\<bar>r2 - r1\<bar> = 2")
    case True
    with assms ex have "executeMove g r1 c1 r2 c2 = (k, g')"
      by (auto simp: submitMove_def Let_def split: if_splits option.splits prod.splits)
    with ex show ?thesis by simp
  next
    case False
    with assms ex have "k = False" and "snd (executeMove g r1 c1 r2 c2) = g'"
      by (auto simp: submitMove_def Let_def split: if_splits option.splits prod.splits)
    with executeMove_simple_False [OF False, of g c1 c2] have "executeMove g r1 c1 r2 c2 = (k, g')"
      by (cases "executeMove g r1 c1 r2 c2") simp
    with ex show ?thesis by simp
  qed
qed

lemma parse_target_inBounds: "parseInputChecks r1 c1 r2 c2 \<Longrightarrow> isInBounds r2 c2"
  by (simp add: parseInputChecks_def split: if_splits)

lemma submitMove_executed_legal:
  assumes "submitMove f g r1 c1 r2 c2 = (Executed k, g')" and "currentPlayer g \<noteq> NONE"
  shows "specLegalMove g r1 c1 r2 c2"
proof -
  note ex = submitMove_executed [OF assms(1)]
  from ex have ib: "isInBounds r2 c2" using parse_target_inBounds by blast
  show ?thesis
  proof (cases "\<bar>r2 - r1\<bar> = 2")
    case True
    with ex ib have "specJumpLegal g r1 c1 r2 c2"
      using isJumpValid_guarded_iff [OF assms(2), of r2 c2 r1 c1] by auto
    then show ?thesis by (simp add: specLegalMove_def)
  next
    case False
    with ex ib have "specSimpleLegal g r1 c1 r2 c2"
      using isSimpleMoveValid_guarded_iff [OF assms(2), of r2 c2 r1 c1] by auto
    then show ?thesis by (simp add: specLegalMove_def)
  qed
qed

subsection \<open>Jump legality\<close>

text \<open>
  Claim C5. For every pair of squares, the program judges a jump from \<open>(r1, c1)\<close> to
  \<open>(r2, c2)\<close> legal exactly when the specification's jump rule holds: a piece of the side
  to move stands on the source, the target is on the board and empty, both coordinates
  change by two, the midpoint holds a piece of the opposing side, and a piece that is not
  a king moves in its own direction. \<^verbatim>\<open>isJumpValid\<close> leaves two of these tests, the
  owner of the moving piece and the bounds of the target, to its callers, which always
  make them; so the judgement is stated three times: as \<^verbatim>\<open>isJumpValid\<close> under the two
  tests of its callers, as membership in the list of \<^verbatim>\<open>getAllPossibleJumps\<close>, and as
  acceptance of a submitted two-row candidate by the turn loop. The side to move is Red
  or Black.
\<close>

theorem jump_judged_legal_iff:
  assumes "currentPlayer g \<noteq> NONE"
  shows "((isInBounds r2 c2 \<and>
           (\<exists>p. getPiece (board g) r1 c1 = Some p \<and> owner p = currentPlayer g) \<and>
           isJumpValid g r1 c1 r2 c2) \<longleftrightarrow> specJumpLegal g r1 c1 r2 c2) \<and>
         (mkMove r1 c1 r2 c2 \<in> set (getAllPossibleJumps g) \<longleftrightarrow> specJumpLegal g r1 c1 r2 c2) \<and>
         ((\<exists>k g'. submitMove f g r1 c1 r2 c2 = (Executed k, g') \<and> \<bar>r2 - r1\<bar> = 2)
            \<longleftrightarrow> specJumpLegal g r1 c1 r2 c2)"
proof (intro conjI)
  show "(isInBounds r2 c2 \<and>
           (\<exists>p. getPiece (board g) r1 c1 = Some p \<and> owner p = currentPlayer g) \<and>
           isJumpValid g r1 c1 r2 c2) \<longleftrightarrow> specJumpLegal g r1 c1 r2 c2"
    by (rule isJumpValid_guarded_iff [OF assms])
next
  show "mkMove r1 c1 r2 c2 \<in> set (getAllPossibleJumps g) \<longleftrightarrow> specJumpLegal g r1 c1 r2 c2"
    unfolding in_allJumps_mk by (rule isJumpValid_guarded_iff [OF assms])
next
  show "(\<exists>k g'. submitMove f g r1 c1 r2 c2 = (Executed k, g') \<and> \<bar>r2 - r1\<bar> = 2)
            \<longleftrightarrow> specJumpLegal g r1 c1 r2 c2"
  proof
    assume "\<exists>k g'. submitMove f g r1 c1 r2 c2 = (Executed k, g') \<and> \<bar>r2 - r1\<bar> = 2"
    then have ex: "\<exists>k g'. submitMove f g r1 c1 r2 c2 = (Executed k, g')" and d: "\<bar>r2 - r1\<bar> = 2"
      by blast+
    from ex d have "parseInputChecks r1 c1 r2 c2"
      and "\<exists>p. getPiece (board g) r1 c1 = Some p \<and> owner p = currentPlayer g"
      and "isJumpValid g r1 c1 r2 c2"
      unfolding submitMove_executed_iff by simp_all
    moreover from \<open>parseInputChecks r1 c1 r2 c2\<close> have "isInBounds r2 c2"
      by (simp add: parseInputChecks_def split: if_splits)
    ultimately show "specJumpLegal g r1 c1 r2 c2"
      using isJumpValid_guarded_iff [OF assms, of r2 c2 r1 c1] by blast
  next
    assume sl: "specJumpLegal g r1 c1 r2 c2"
    then have "isInBounds r2 c2 \<and>
          (\<exists>p. getPiece (board g) r1 c1 = Some p \<and> owner p = currentPlayer g) \<and>
          isJumpValid g r1 c1 r2 c2"
      using isJumpValid_guarded_iff [OF assms, of r2 c2 r1 c1] by blast
    with specJumpLegal_parse [OF sl]
    have "\<exists>k g'. submitMove f g r1 c1 r2 c2 = (Executed k, g')"
      unfolding submitMove_executed_iff by simp
    with specJumpLegal_parse [OF sl]
    show "\<exists>k g'. submitMove f g r1 c1 r2 c2 = (Executed k, g') \<and> \<bar>r2 - r1\<bar> = 2"
      by blast
  qed
qed

theorem jump_judged_legal_iff_witness:
  "currentPlayer \<lparr>board = newBoard((5, 2) := Some (newPiece RED 5 2), (4, 3) := Some (newPiece BLACK 4 3)),
                  currentPlayer = RED\<rparr> \<noteq> NONE \<and>
   specJumpLegal \<lparr>board = newBoard((5, 2) := Some (newPiece RED 5 2), (4, 3) := Some (newPiece BLACK 4 3)),
                  currentPlayer = RED\<rparr> 5 2 3 4 \<and>
   mkMove 5 2 3 4 \<in> set (getAllPossibleJumps
      \<lparr>board = newBoard((5, 2) := Some (newPiece RED 5 2), (4, 3) := Some (newPiece BLACK 4 3)),
       currentPlayer = RED\<rparr>)"
proof -
  let ?g = "\<lparr>board = newBoard((5, 2) := Some (newPiece RED 5 2), (4, 3) := Some (newPiece BLACK 4 3)),
                  currentPlayer = RED\<rparr>"
  have c: "currentPlayer ?g \<noteq> NONE" by simp
  have l: "specJumpLegal ?g 5 2 3 4"
    by (simp add: specJumpLegal_def getPiece_def isInBounds_def BOARD_SIZE_def newBoard_def
        newPiece_def specDirectionOk_def)
  have "mkMove 5 2 3 4 \<in> set (getAllPossibleJumps ?g) \<longleftrightarrow> specJumpLegal ?g 5 2 3 4"
    by (rule conjunct1 [OF conjunct2 [OF jump_judged_legal_iff [OF c, where ?f = True]]])
  with l have "mkMove 5 2 3 4 \<in> set (getAllPossibleJumps ?g)" by simp
  with c l show ?thesis by blast
qed

subsection \<open>Rejections\<close>

text \<open>
  Claim C7. Every rejected move candidate, whatever the reason, leaves the whole game
  state (board and side to move) as it was, and the turn loop stays in the state it was
  in; a move is executed only after its validation has succeeded on the unchanged state,
  and the new state is the one \<^verbatim>\<open>executeMove\<close> computes from it.
\<close>

theorem rejected_move_unchanged:
  "(submitMove f g r1 c1 r2 c2 = (Rejected why, g') \<longrightarrow>
      g' = g \<and>
      (\<forall>s. game s = g \<and> phase s = AwaitingMove f \<longrightarrow> runStep s (MoveLine r1 c1 r2 c2) = s)) \<and>
   (submitMove f g r1 c1 r2 c2 = (Executed k, g') \<longrightarrow>
      (isJumpValid g r1 c1 r2 c2 \<or> isSimpleMoveValid g r1 c1 r2 c2) \<and>
      g' = snd (executeMove g r1 c1 r2 c2))"
proof (intro conjI impI allI)
  assume r: "submitMove f g r1 c1 r2 c2 = (Rejected why, g')"
  then show "g' = g" by (rule submitMove_rejected)
  fix s :: RunState
  assume "game s = g \<and> phase s = AwaitingMove f"
  with r submitMove_rejected [OF r] show "runStep s (MoveLine r1 c1 r2 c2) = s"
    by (simp add: runStep_def)
next
  assume e: "submitMove f g r1 c1 r2 c2 = (Executed k, g')"
  from submitMove_executed [OF e] show "isJumpValid g r1 c1 r2 c2 \<or> isSimpleMoveValid g r1 c1 r2 c2"
    by (auto split: if_splits)
  from submitMove_executed [OF e] show "g' = snd (executeMove g r1 c1 r2 c2)"
    by simp
qed

theorem rejected_move_unchanged_witness:
  "fst (submitMove True \<lparr>board = newBoard((5, 2) := Some (newPiece RED 5 2), (4, 3) := Some (newPiece BLACK 4 3)),
                     currentPlayer = RED\<rparr> 5 2 4 1) = Rejected JumpMandatory \<and>
   snd (submitMove True \<lparr>board = newBoard((5, 2) := Some (newPiece RED 5 2), (4, 3) := Some (newPiece BLACK 4 3)),
                     currentPlayer = RED\<rparr> 5 2 4 1)
     = \<lparr>board = newBoard((5, 2) := Some (newPiece RED 5 2), (4, 3) := Some (newPiece BLACK 4 3)),
                     currentPlayer = RED\<rparr>"
proof -
  let ?g = "\<lparr>board = newBoard((5, 2) := Some (newPiece RED 5 2), (4, 3) := Some (newPiece BLACK 4 3)),
                     currentPlayer = RED\<rparr>"
  have k: "fst (submitMove True ?g 5 2 4 1) = Rejected JumpMandatory" by code_simp
  then have e: "submitMove True ?g 5 2 4 1 = (Rejected JumpMandatory, snd (submitMove True ?g 5 2 4 1))"
    by (cases "submitMove True ?g 5 2 4 1") simp
  from rejected_move_unchanged [of True ?g 5 2 4 1 JumpMandatory "snd (submitMove True ?g 5 2 4 1)"] e k
  show ?thesis by simp
qed

section \<open>Terminal states\<close>

lemma checkForWin_eq_spec:
  assumes "currentPlayer g \<noteq> NONE"
  shows "checkForWin g = specCheckWin g"
  unfolding checkForWin_def specCheckWin_def Let_def countPieces_zero noLegalAction_iff
    allJumps_empty_iff [OF assms] allSimpleMoves_empty_iff [OF assms] opponent_code [OF assms]
  by simp

text \<open>
  Claim C6. In every game state \<^verbatim>\<open>checkForWin\<close> returns what the specification's
  terminal-state check prescribes: Black when Red has no piece on the board, else Red when
  Black has none, else the opponent of the side to move when that side has neither a legal
  jump nor a legal simple move anywhere on the board, else no winner. The side to move is
  Red or Black.
\<close>

theorem checkForWin_terminal:
  assumes "currentPlayer g \<noteq> NONE"
  shows "checkForWin g = specCheckWin g"
  using assms by (rule checkForWin_eq_spec)

theorem checkForWin_terminal_witness:
  "currentPlayer \<lparr>board = newBoard((7, 0) := Some (newPiece RED 7 0), (6, 1) := Some (newPiece BLACK 6 1),
                      (5, 2) := Some (newPiece BLACK 5 2)), currentPlayer = RED\<rparr> \<noteq> NONE \<and>
   specCheckWin \<lparr>board = newBoard((7, 0) := Some (newPiece RED 7 0), (6, 1) := Some (newPiece BLACK 6 1),
                      (5, 2) := Some (newPiece BLACK 5 2)), currentPlayer = RED\<rparr> = BLACK"
proof -
  let ?g = "\<lparr>board = newBoard((7, 0) := Some (newPiece RED 7 0), (6, 1) := Some (newPiece BLACK 6 1),
                      (5, 2) := Some (newPiece BLACK 5 2)), currentPlayer = RED\<rparr>"
  have w: "checkForWin ?g = BLACK" by code_simp
  have c: "currentPlayer ?g \<noteq> NONE" by simp
  from checkForWin_terminal [OF c] w have "specCheckWin ?g = BLACK" by simp
  with c show ?thesis by simp
qed

text \<open>
  Claim C10. On every board on which neither side has a piece, \<^verbatim>\<open>checkForWin\<close>
  returns Black, since the count of Red is tested first; it never answers \<open>NONE\<close> there.
\<close>

theorem checkForWin_no_pieces_black:
  assumes "specNoPieces (board g) RED" and "specNoPieces (board g) BLACK"
  shows "checkForWin g = BLACK \<and> checkForWin g \<noteq> NONE"
  using assms(1) by (simp add: checkForWin_def Let_def countPieces_zero)

theorem checkForWin_no_pieces_black_witness:
  "specNoPieces (board newGame) RED \<and> specNoPieces (board newGame) BLACK \<and>
   checkForWin newGame = BLACK \<and> checkForWin newGame \<noteq> NONE"
proof -
  have r: "specNoPieces (board newGame) RED"
    by (simp add: specNoPieces_def newGame_def newBoard_def getPiece_def)
  have b: "specNoPieces (board newGame) BLACK"
    by (simp add: specNoPieces_def newGame_def newBoard_def getPiece_def)
  from checkForWin_no_pieces_black [OF r b] r b show ?thesis by simp
qed

section \<open>Move execution\<close>

lemma landing_piece:
  assumes "getPiece b r1 c1 = Some p" and "isInBounds r2 c2"
    and "(r1, c1) \<noteq> (r2, c2)" and "(mr, mc) \<noteq> (r2, c2)"
  shows "getPiece (removePiece (movePiece b r1 c1 r2 c2) mr mc) r2 c2 = Some (setPosition p r2 c2)"
  using assms getPiece_Some_cell [OF assms(1)]
  by (auto simp: getPiece_inBounds removePiece_def movePiece_def split: option.splits)

lemma landing_piece_simple:
  assumes "getPiece b r1 c1 = Some p" and "isInBounds r2 c2" and "(r1, c1) \<noteq> (r2, c2)"
  shows "getPiece (movePiece b r1 c1 r2 c2) r2 c2 = Some (setPosition p r2 c2)"
  using assms getPiece_Some_cell [OF assms(1)]
  by (auto simp: getPiece_inBounds movePiece_def split: option.splits)

lemma jumpsForPiece_nonempty_iff:
  assumes "currentPlayer g \<noteq> NONE" and "getPiece (board g) r c = Some p"
    and "owner p = currentPlayer g"
  shows "getPossibleJumpsForPiece g r c \<noteq> [] \<longleftrightarrow>
           (\<exists>(r3, c3) \<in> set allCells. specJumpLegal g r c r3 c3)"
proof -
  have "getPossibleJumpsForPiece g r c \<noteq> [] \<longleftrightarrow> (\<exists>m. m \<in> set (getPossibleJumpsForPiece g r c))"
    by (cases "getPossibleJumpsForPiece g r c") auto
  also have "\<dots> \<longleftrightarrow> (\<exists>r3 c3. isInBounds r3 c3 \<and> isJumpValid g r c r3 c3)"
    unfolding in_jumpsForPiece by blast
  also have "\<dots> \<longleftrightarrow> (\<exists>r3 c3. isInBounds r3 c3 \<and>
        (\<exists>p. getPiece (board g) r c = Some p \<and> owner p = currentPlayer g) \<and> isJumpValid g r c r3 c3)"
    using assms(2,3) by simp
  also have "\<dots> \<longleftrightarrow> (\<exists>r3 c3. specJumpLegal g r c r3 c3)"
    unfolding isJumpValid_guarded_iff [OF assms(1)] ..
  also have "\<dots> \<longleftrightarrow> (\<exists>(r3, c3) \<in> set allCells. specJumpLegal g r c r3 c3)"
    using specJumpLegal_from_inBounds [of g r c] by (auto simp: set_allCells)
  finally show ?thesis .
qed

lemma checkKinging_eq_spec: "checkKinging g r c = specPromote g r c"
  by (auto simp: checkKinging_def specPromote_def makeKing_def BOARD_SIZE_def split: option.splits)

lemma switchPlayer_eq_spec: "currentPlayer g \<noteq> NONE \<Longrightarrow> switchPlayer g = specFlip g"
  by (simp add: switchPlayer_def specFlip_def opponent_code)

lemma specPromote_currentPlayer: "currentPlayer (specPromote g r c) = currentPlayer g"
  by (simp add: specPromote_def split: option.splits)

lemma specLegalMove_facts:
  assumes "specLegalMove g r1 c1 r2 c2"
  shows "\<exists>p. getPiece (board g) r1 c1 = Some p \<and> owner p = currentPlayer g \<and>
           isInBounds r2 c2 \<and> (r1, c1) \<noteq> (r2, c2) \<and> (\<bar>r2 - r1\<bar> = 2 \<longrightarrow> \<bar>c2 - c1\<bar> = 2)"
proof -
  from assms obtain p where "getPiece (board g) r1 c1 = Some p" and "owner p = currentPlayer g"
    and "isInBounds r2 c2"
    and geo: "(\<bar>r2 - r1\<bar> = 2 \<and> \<bar>c2 - c1\<bar> = 2) \<or> (\<bar>r2 - r1\<bar> = 1 \<and> \<bar>c2 - c1\<bar> = 1)"
    by (auto simp: specLegalMove_def specJumpLegal_def specSimpleLegal_def split: option.splits)
  moreover from geo have "(r1, c1) \<noteq> (r2, c2)" by auto
  moreover from geo have "\<bar>r2 - r1\<bar> = 2 \<longrightarrow> \<bar>c2 - c1\<bar> = 2" by auto
  ultimately show ?thesis by blast
qed

lemma midpoint_not_landing: "\<bar>r2 - r1\<bar> = (2::int) \<Longrightarrow> ((r1 + r2) div 2, mc) \<noteq> (r2, c2)"
  by auto

lemma executeMove_eq_spec:
  assumes legal: "specLegalMove g r1 c1 r2 c2" and cur: "currentPlayer g \<noteq> NONE"
  shows "executeMove g r1 c1 r2 c2 = specApplyMove g r1 c1 r2 c2"
proof -
  from legal obtain p where gp: "getPiece (board g) r1 c1 = Some p"
    and own: "owner p = currentPlayer g" and ib: "isInBounds r2 c2"
    and ne: "(r1, c1) \<noteq> (r2, c2)" and dc: "\<bar>r2 - r1\<bar> = 2 \<Longrightarrow> \<bar>c2 - c1\<bar> = 2"
    using specLegalMove_facts by blast
  let ?g1 = "g\<lparr>board := movePiece (board g) r1 c1 r2 c2\<rparr>"
  show ?thesis
  proof (cases "\<bar>r2 - r1\<bar> = 2")
    case False
    then show ?thesis
      using cur
      by (simp add: executeMove_def specApplyMove_def specRelocate_def specRemoveCaptured_def
          specContinuation_def Let_def checkKinging_eq_spec switchPlayer_eq_spec
          specPromote_currentPlayer)
  next
    case True
    let ?mr = "(r1 + r2) div 2" and ?mc = "(c1 + c2) div 2"
    let ?g2 = "?g1\<lparr>board := removePiece (board ?g1) ?mr ?mc\<rparr>"
    have mr: "(r1 + r2) sdiv 2 = ?mr" using True by (rule midpoint_sdiv)
    have mc: "(c1 + c2) sdiv 2 = ?mc" using dc [OF True] by (rule midpoint_sdiv)
    have land: "getPiece (board ?g2) r2 c2 = Some (setPosition p r2 c2)"
      using landing_piece [OF gp ib ne midpoint_not_landing [OF True]] by simp
    have own2: "owner (setPosition p r2 c2) = currentPlayer ?g2"
      using own by (simp add: setPosition_def)
    have cur2: "currentPlayer ?g2 \<noteq> NONE" using cur by simp
    have cont: "getPossibleJumpsForPiece ?g2 r2 c2 \<noteq> [] \<longleftrightarrow> specContinuation ?g2 r1 r2 c2"
      unfolding specContinuation_def jumpsForPiece_nonempty_iff [OF cur2 land own2]
      using True by simp
    have sw: "switchPlayer (specPromote ?g2 r2 c2) = specFlip (specPromote ?g2 r2 c2)"
      by (rule switchPlayer_eq_spec) (simp add: specPromote_currentPlayer cur)
    show ?thesis
      using True cont sw
      by (simp add: executeMove_def specApplyMove_def specRelocate_def specRemoveCaptured_def
          Let_def mr mc checkKinging_eq_spec)
  qed
qed

lemma specApplyMove_turn:
  "specApplyMove g r1 c1 r2 c2 = (k, g') \<Longrightarrow>
   (if specContinuation (specRemoveCaptured (specRelocate g r1 c1 r2 c2) r1 c1 r2 c2) r1 r2 c2
    then k \<and> currentPlayer g' = currentPlayer g
    else \<not> k \<and> currentPlayer g' = specOpponent (currentPlayer g))"
  by (auto simp: specApplyMove_def Let_def specFlip_def specPromote_currentPlayer
      specRemoveCaptured_def specRelocate_def split: if_splits)

lemma specApplyMove_landing:
  assumes legal: "specLegalMove g r1 c1 r2 c2" and gp: "getPiece (board g) r1 c1 = Some p"
  shows "(fst (specApplyMove g r1 c1 r2 c2) \<longrightarrow>
            getPiece (board (snd (specApplyMove g r1 c1 r2 c2))) r2 c2 = Some (setPosition p r2 c2)) \<and>
         (\<not> fst (specApplyMove g r1 c1 r2 c2) \<longrightarrow>
            getPiece (board (snd (specApplyMove g r1 c1 r2 c2))) r2 c2 =
              Some ((setPosition p r2 c2)
                \<lparr>isKing := isKing p \<or> (owner p = RED \<and> r2 = 0) \<or> (owner p = BLACK \<and> r2 = 7)\<rparr>))"
proof -
  from specLegalMove_facts [OF legal] gp have ib: "isInBounds r2 c2"
    and ne: "(r1, c1) \<noteq> (r2, c2)" by auto
  let ?g2 = "specRemoveCaptured (specRelocate g r1 c1 r2 c2) r1 c1 r2 c2"
  have land: "getPiece (board ?g2) r2 c2 = Some (setPosition p r2 c2)"
  proof (cases "\<bar>r2 - r1\<bar> = 2")
    case True
    then show ?thesis
      using landing_piece [OF gp ib ne midpoint_not_landing [OF True]]
      by (simp add: specRemoveCaptured_def specRelocate_def)
  next
    case False
    then show ?thesis
      using landing_piece_simple [OF gp ib ne]
      by (simp add: specRemoveCaptured_def specRelocate_def)
  qed
  have prom: "getPiece (board (specFlip (specPromote ?g2 r2 c2))) r2 c2 =
      Some ((setPosition p r2 c2)
        \<lparr>isKing := isKing p \<or> (owner p = RED \<and> r2 = 0) \<or> (owner p = BLACK \<and> r2 = 7)\<rparr>)"
    using land ib
    by (auto simp: specFlip_def specPromote_def getPiece_inBounds setPosition_def)
  show ?thesis
    using land prom by (simp add: specApplyMove_def Let_def)
qed

subsection \<open>Turn order after an applied move\<close>

text \<open>
  Claim C3. For every applied move: when it is a jump and, once the piece has landed and
  the captured piece is gone, the same piece has another legal jump from its landing
  square, the result is continuation (\<open>Executed True\<close>) and the side to move is
  unchanged; for every other applied move (a simple move, or a jump without a further
  jump) the turn ends and the side to move becomes the other side. The side to move is
  Red or Black.
\<close>

theorem applied_move_turn:
  assumes "submitMove f g r1 c1 r2 c2 = (Executed k, g')" and "currentPlayer g \<noteq> NONE"
  shows "if specContinuation (specRemoveCaptured (specRelocate g r1 c1 r2 c2) r1 c1 r2 c2) r1 r2 c2
         then k \<and> currentPlayer g' = currentPlayer g
         else \<not> k \<and> currentPlayer g' = specOpponent (currentPlayer g) \<and>
              currentPlayer g' \<noteq> currentPlayer g"
proof -
  have "executeMove g r1 c1 r2 c2 = (k, g')"
    using submitMove_executed [OF assms(1)] by simp
  then have "specApplyMove g r1 c1 r2 c2 = (k, g')"
    using executeMove_eq_spec [OF submitMove_executed_legal [OF assms] assms(2)] by simp
  from specApplyMove_turn [OF this] specOpponent_neq [OF assms(2)] show ?thesis
    by (auto split: if_splits)
qed

theorem applied_move_turn_witness:
  "currentPlayer \<lparr>board = newBoard((5, 2) := Some (newPiece RED 5 2), (4, 3) := Some (newPiece BLACK 4 3),
                     (2, 5) := Some (newPiece BLACK 2 5)), currentPlayer = RED\<rparr> \<noteq> NONE \<and>
   fst (submitMove True \<lparr>board = newBoard((5, 2) := Some (newPiece RED 5 2), (4, 3) := Some (newPiece BLACK 4 3),
                     (2, 5) := Some (newPiece BLACK 2 5)), currentPlayer = RED\<rparr> 5 2 3 4) = Executed True \<and>
   specContinuation (specRemoveCaptured (specRelocate
       \<lparr>board = newBoard((5, 2) := Some (newPiece RED 5 2), (4, 3) := Some (newPiece BLACK 4 3),
                     (2, 5) := Some (newPiece BLACK 2 5)), currentPlayer = RED\<rparr> 5 2 3 4) 5 2 3 4) 5 3 4 \<and>
   currentPlayer (snd (submitMove True \<lparr>board = newBoard((5, 2) := Some (newPiece RED 5 2),
                     (4, 3) := Some (newPiece BLACK 4 3),
                     (2, 5) := Some (newPiece BLACK 2 5)), currentPlayer = RED\<rparr> 5 2 3 4)) = RED \<and>
   currentPlayer (game startRun) \<noteq> NONE \<and>
   fst (submitMove False (game startRun) 5 0 4 1) = Executed False \<and>
   currentPlayer (snd (submitMove False (game startRun) 5 0 4 1)) = BLACK"
proof -
  let ?g = "\<lparr>board = newBoard((5, 2) := Some (newPiece RED 5 2), (4, 3) := Some (newPiece BLACK 4 3),
                     (2, 5) := Some (newPiece BLACK 2 5)), currentPlayer = RED\<rparr>"
  have c: "currentPlayer ?g \<noteq> NONE" by simp
  have k: "fst (submitMove True ?g 5 2 3 4) = Executed True" by code_simp
  then have e: "submitMove True ?g 5 2 3 4 = (Executed True, snd (submitMove True ?g 5 2 3 4))"
    by (cases "submitMove True ?g 5 2 3 4") simp
  from applied_move_turn [OF e c] c k
  have jump: "currentPlayer ?g \<noteq> NONE \<and> fst (submitMove True ?g 5 2 3 4) = Executed True \<and>
      specContinuation (specRemoveCaptured (specRelocate ?g 5 2 3 4) 5 2 3 4) 5 3 4 \<and>
      currentPlayer (snd (submitMove True ?g 5 2 3 4)) = RED"
    by (simp split: if_splits)
  have g0: "game startRun = \<lparr>board = initializeBoard newBoard, currentPlayer = RED\<rparr>"
    by (simp add: startRun_def beginTurn_def newGame_def Let_def)
  have c0: "currentPlayer (game startRun) \<noteq> NONE" by (simp add: g0)
  have k0: "fst (submitMove False \<lparr>board = initializeBoard newBoard, currentPlayer = RED\<rparr> 5 0 4 1)
      = Executed False"
    by code_simp
  then have e0: "submitMove False (game startRun) 5 0 4 1
      = (Executed False, snd (submitMove False (game startRun) 5 0 4 1))"
    unfolding g0
    by (cases "submitMove False \<lparr>board = initializeBoard newBoard, currentPlayer = RED\<rparr> 5 0 4 1") simp
  from applied_move_turn [OF e0 c0] c0 k0 g0
  have simple: "currentPlayer (game startRun) \<noteq> NONE \<and>
      fst (submitMove False (game startRun) 5 0 4 1) = Executed False \<and>
      currentPlayer (snd (submitMove False (game startRun) 5 0 4 1)) = BLACK"
    by (simp split: if_splits)
  from jump simple show ?thesis by blast
qed

lemma removePiece_cell: "removePiece b r c rc = (if rc = (r, c) then None else b rc)"
proof (cases "b (r, c)")
  case None
  then show ?thesis by (simp add: removePiece_def)
next
  case (Some a)
  then show ?thesis by (simp add: removePiece_def)
qed

lemma movePiece_cell:
  "b (r1, c1) = Some p \<Longrightarrow>
   movePiece b r1 c1 r2 c2 rc =
     (if rc = (r1, c1) then None else if rc = (r2, c2) then Some (setPosition p r2 c2) else b rc)"
  by (simp add: movePiece_def)

lemma specPromote_other_cell: "rc \<noteq> (r, c) \<Longrightarrow> board (specPromote g r c) rc = board g rc"
  by (cases "getPiece (board g) r c") (simp_all add: specPromote_def)

lemma specApplyMove_other_cell:
  assumes "rc \<noteq> (r2, c2)"
  shows "board (snd (specApplyMove g r1 c1 r2 c2)) rc
     = board (specRemoveCaptured (specRelocate g r1 c1 r2 c2) r1 c1 r2 c2) rc"
  using specPromote_other_cell [OF assms]
  by (simp add: specApplyMove_def Let_def specFlip_def)

lemma captured_board_cell:
  assumes cell: "board g (r1, c1) = Some p"
  shows "board (specRemoveCaptured (specRelocate g r1 c1 r2 c2) r1 c1 r2 c2) rc =
     (if \<bar>r2 - r1\<bar> = 2 \<and> rc = ((r1 + r2) div 2, (c1 + c2) div 2) then None
      else if rc = (r1, c1) then None
      else if rc = (r2, c2) then Some (setPosition p r2 c2)
      else board g rc)"
proof -
  note mv = movePiece_cell [of "board g" r1 c1 p r2 c2, OF cell]
  show ?thesis
  proof (cases "\<bar>r2 - r1\<bar> = 2")
    case True
    then have "board (specRemoveCaptured (specRelocate g r1 c1 r2 c2) r1 c1 r2 c2) rc =
        removePiece (movePiece (board g) r1 c1 r2 c2) ((r1 + r2) div 2) ((c1 + c2) div 2) rc"
      by (simp add: specRemoveCaptured_def specRelocate_def)
    also have "\<dots> = (if rc = ((r1 + r2) div 2, (c1 + c2) div 2) then None
        else if rc = (r1, c1) then None
        else if rc = (r2, c2) then Some (setPosition p r2 c2)
        else board g rc)"
      unfolding removePiece_cell mv ..
    finally show ?thesis using True by simp
  next
    case False
    then have "board (specRemoveCaptured (specRelocate g r1 c1 r2 c2) r1 c1 r2 c2) rc =
        movePiece (board g) r1 c1 r2 c2 rc"
      by (simp add: specRemoveCaptured_def specRelocate_def)
    also have "\<dots> = (if rc = (r1, c1) then None
        else if rc = (r2, c2) then Some (setPosition p r2 c2)
        else board g rc)"
      unfolding mv ..
    finally show ?thesis using False by simp
  qed
qed

lemma specApplyMove_frame:
  assumes legal: "specLegalMove g r1 c1 r2 c2" and gp: "getPiece (board g) r1 c1 = Some p"
  shows "getPiece (board (snd (specApplyMove g r1 c1 r2 c2))) r1 c1 = None"
    and "\<bar>r2 - r1\<bar> = 2 \<longrightarrow>
           getPiece (board (snd (specApplyMove g r1 c1 r2 c2))) ((r1 + r2) div 2) ((c1 + c2) div 2) = None"
    and "\<forall>r c. (r, c) \<noteq> (r1, c1) \<and> (r, c) \<noteq> (r2, c2) \<and>
             \<not> (\<bar>r2 - r1\<bar> = 2 \<and> (r, c) = ((r1 + r2) div 2, (c1 + c2) div 2))
             \<longrightarrow> board (snd (specApplyMove g r1 c1 r2 c2)) (r, c) = board g (r, c)"
proof -
  have cell: "board g (r1, c1) = Some p" using gp by (rule getPiece_Some_cell)
  note cap = captured_board_cell [of g r1 c1 p r2 c2, OF cell]
  from specLegalMove_facts [OF legal] have ne: "(r1, c1) \<noteq> (r2, c2)" by blast
  have src: "board (snd (specApplyMove g r1 c1 r2 c2)) (r1, c1) = None"
    using specApplyMove_other_cell [OF ne, of g r1 c1] by (simp add: cap)
  then show "getPiece (board (snd (specApplyMove g r1 c1 r2 c2))) r1 c1 = None"
    by (simp add: getPiece_def)
  show "\<bar>r2 - r1\<bar> = 2 \<longrightarrow>
           getPiece (board (snd (specApplyMove g r1 c1 r2 c2))) ((r1 + r2) div 2) ((c1 + c2) div 2) = None"
  proof
    assume j: "\<bar>r2 - r1\<bar> = 2"
    have "((r1 + r2) div 2, (c1 + c2) div 2) \<noteq> (r2, c2)" using j by (rule midpoint_not_landing)
    from specApplyMove_other_cell [OF this, of g r1 c1] j
    have "board (snd (specApplyMove g r1 c1 r2 c2)) ((r1 + r2) div 2, (c1 + c2) div 2) = None"
      by (simp add: cap)
    then show "getPiece (board (snd (specApplyMove g r1 c1 r2 c2))) ((r1 + r2) div 2) ((c1 + c2) div 2) = None"
      by (simp add: getPiece_def)
  qed
  show "\<forall>r c. (r, c) \<noteq> (r1, c1) \<and> (r, c) \<noteq> (r2, c2) \<and>
             \<not> (\<bar>r2 - r1\<bar> = 2 \<and> (r, c) = ((r1 + r2) div 2, (c1 + c2) div 2))
             \<longrightarrow> board (snd (specApplyMove g r1 c1 r2 c2)) (r, c) = board g (r, c)"
  proof (intro allI impI)
    fix r c
    assume a: "(r, c) \<noteq> (r1, c1) \<and> (r, c) \<noteq> (r2, c2) \<and>
             \<not> (\<bar>r2 - r1\<bar> = 2 \<and> (r, c) = ((r1 + r2) div 2, (c1 + c2) div 2))"
    then have "(r, c) \<noteq> (r2, c2)" by blast
    from specApplyMove_other_cell [OF this, of g r1 c1] a
    show "board (snd (specApplyMove g r1 c1 r2 c2)) (r, c) = board g (r, c)"
      by (auto simp: cap)
  qed
qed

lemma jump_midpoint_opponent:
  assumes "specLegalMove g r1 c1 r2 c2" and "\<bar>r2 - r1\<bar> = 2"
  shows "\<exists>q. getPiece (board g) ((r1 + r2) div 2) ((c1 + c2) div 2) = Some q \<and>
             owner q = specOpponent (currentPlayer g)"
proof -
  from assms have "specJumpLegal g r1 c1 r2 c2"
    by (auto simp: specLegalMove_def specSimpleLegal_def split: option.splits)
  then show ?thesis
    by (auto simp: specJumpLegal_def split: option.splits)
qed

subsection \<open>The order of move execution\<close>

text \<open>
  Claim C4. \<^verbatim>\<open>executeMove\<close>, on a move that passed the legality check, does the steps
  of the specification in its order: relocate the piece, remove the captured midpoint
  piece of a jump, test for a continuation jump of the same piece, and only when none is
  required promote (Red on row 0, Black on row 7) and then flip the side to move. When a
  continuation is required the landing piece is the relocated piece as it was, not
  promoted, and the side to move stays; when the turn ends the landing piece is a king
  exactly if it was one before or has reached its far row, so promotion is never undone;
  promoting a king changes nothing. On the board that results, the source square is
  empty; after a jump the midpoint square, which held a piece of the opponent, is empty;
  every square other than source, target and the midpoint of a jump holds what it held
  before.
\<close>

theorem move_execution_order:
  assumes "specLegalMove g r1 c1 r2 c2" and "currentPlayer g \<noteq> NONE"
    and "getPiece (board g) r1 c1 = Some p"
  shows "executeMove g r1 c1 r2 c2 = specApplyMove g r1 c1 r2 c2 \<and>
         (fst (executeMove g r1 c1 r2 c2) \<longrightarrow>
            getPiece (board (snd (executeMove g r1 c1 r2 c2))) r2 c2 = Some (setPosition p r2 c2) \<and>
            currentPlayer (snd (executeMove g r1 c1 r2 c2)) = currentPlayer g) \<and>
         (\<not> fst (executeMove g r1 c1 r2 c2) \<longrightarrow>
            getPiece (board (snd (executeMove g r1 c1 r2 c2))) r2 c2 =
              Some ((setPosition p r2 c2)
                \<lparr>isKing := isKing p \<or> (owner p = RED \<and> r2 = 0) \<or> (owner p = BLACK \<and> r2 = 7)\<rparr>) \<and>
            currentPlayer (snd (executeMove g r1 c1 r2 c2)) = specOpponent (currentPlayer g)) \<and>
         makeKing (makeKing p) = makeKing p \<and> isKing (makeKing p) \<and>
         getPiece (board (snd (executeMove g r1 c1 r2 c2))) r1 c1 = None \<and>
         (\<bar>r2 - r1\<bar> = 2 \<longrightarrow>
            (\<exists>q. getPiece (board g) ((r1 + r2) div 2) ((c1 + c2) div 2) = Some q \<and>
                 owner q = specOpponent (currentPlayer g)) \<and>
            getPiece (board (snd (executeMove g r1 c1 r2 c2))) ((r1 + r2) div 2) ((c1 + c2) div 2)
              = None) \<and>
         (\<forall>r c. (r, c) \<noteq> (r1, c1) \<and> (r, c) \<noteq> (r2, c2) \<and>
             \<not> (\<bar>r2 - r1\<bar> = 2 \<and> (r, c) = ((r1 + r2) div 2, (c1 + c2) div 2))
             \<longrightarrow> board (snd (executeMove g r1 c1 r2 c2)) (r, c) = board g (r, c))"
proof -
  have eq: "executeMove g r1 c1 r2 c2 = specApplyMove g r1 c1 r2 c2"
    using assms(1,2) by (rule executeMove_eq_spec)
  have turn: "if specContinuation (specRemoveCaptured (specRelocate g r1 c1 r2 c2) r1 c1 r2 c2) r1 r2 c2
    then fst (specApplyMove g r1 c1 r2 c2) \<and>
         currentPlayer (snd (specApplyMove g r1 c1 r2 c2)) = currentPlayer g
    else \<not> fst (specApplyMove g r1 c1 r2 c2) \<and>
         currentPlayer (snd (specApplyMove g r1 c1 r2 c2)) = specOpponent (currentPlayer g)"
    by (rule specApplyMove_turn) simp
  from specApplyMove_landing [OF assms(1,3)] turn
  have steps: "executeMove g r1 c1 r2 c2 = specApplyMove g r1 c1 r2 c2 \<and>
         (fst (executeMove g r1 c1 r2 c2) \<longrightarrow>
            getPiece (board (snd (executeMove g r1 c1 r2 c2))) r2 c2 = Some (setPosition p r2 c2) \<and>
            currentPlayer (snd (executeMove g r1 c1 r2 c2)) = currentPlayer g) \<and>
         (\<not> fst (executeMove g r1 c1 r2 c2) \<longrightarrow>
            getPiece (board (snd (executeMove g r1 c1 r2 c2))) r2 c2 =
              Some ((setPosition p r2 c2)
                \<lparr>isKing := isKing p \<or> (owner p = RED \<and> r2 = 0) \<or> (owner p = BLACK \<and> r2 = 7)\<rparr>) \<and>
            currentPlayer (snd (executeMove g r1 c1 r2 c2)) = specOpponent (currentPlayer g)) \<and>
         makeKing (makeKing p) = makeKing p \<and> isKing (makeKing p)"
    unfolding eq by (auto simp: makeKing_def split: if_splits)
  note fr = specApplyMove_frame [OF assms(1,3), folded eq]
  have mid: "\<bar>r2 - r1\<bar> = 2 \<longrightarrow>
            (\<exists>q. getPiece (board g) ((r1 + r2) div 2) ((c1 + c2) div 2) = Some q \<and>
                 owner q = specOpponent (currentPlayer g)) \<and>
            getPiece (board (snd (executeMove g r1 c1 r2 c2))) ((r1 + r2) div 2) ((c1 + c2) div 2)
              = None"
    using jump_midpoint_opponent [OF assms(1)] fr(2) by blast
  from steps fr(1) mid fr(3) show ?thesis
    by (intro conjI) blast+
qed

theorem move_execution_order_witness:
  "specLegalMove \<lparr>board = newBoard((2, 1) := Some (newPiece RED 2 1), (1, 2) := Some (newPiece BLACK 1 2),
       (1, 4) := Some (newPiece BLACK 1 4)), currentPlayer = RED\<rparr> 2 1 0 3 \<and>
   currentPlayer \<lparr>board = newBoard((2, 1) := Some (newPiece RED 2 1), (1, 2) := Some (newPiece BLACK 1 2),
       (1, 4) := Some (newPiece BLACK 1 4)), currentPlayer = RED\<rparr> \<noteq> NONE \<and>
   getPiece (board \<lparr>board = newBoard((2, 1) := Some (newPiece RED 2 1), (1, 2) := Some (newPiece BLACK 1 2),
       (1, 4) := Some (newPiece BLACK 1 4)), currentPlayer = RED\<rparr>) 2 1 = Some (newPiece RED 2 1) \<and>
   \<not> fst (executeMove \<lparr>board = newBoard((2, 1) := Some (newPiece RED 2 1), (1, 2) := Some (newPiece BLACK 1 2),
       (1, 4) := Some (newPiece BLACK 1 4)), currentPlayer = RED\<rparr> 2 1 0 3) \<and>
   getPiece (board (snd (executeMove \<lparr>board = newBoard((2, 1) := Some (newPiece RED 2 1),
       (1, 2) := Some (newPiece BLACK 1 2),
       (1, 4) := Some (newPiece BLACK 1 4)), currentPlayer = RED\<rparr> 2 1 0 3))) 0 3
     = Some \<lparr>owner = RED, isKing = True, row = 0, col = 3\<rparr> \<and>
   currentPlayer (snd (executeMove \<lparr>board = newBoard((2, 1) := Some (newPiece RED 2 1),
       (1, 2) := Some (newPiece BLACK 1 2),
       (1, 4) := Some (newPiece BLACK 1 4)), currentPlayer = RED\<rparr> 2 1 0 3)) = BLACK \<and>
   getPiece (board (snd (executeMove \<lparr>board = newBoard((2, 1) := Some (newPiece RED 2 1),
       (1, 2) := Some (newPiece BLACK 1 2),
       (1, 4) := Some (newPiece BLACK 1 4)), currentPlayer = RED\<rparr> 2 1 0 3))) 2 1 = None \<and>
   getPiece (board (snd (executeMove \<lparr>board = newBoard((2, 1) := Some (newPiece RED 2 1),
       (1, 2) := Some (newPiece BLACK 1 2),
       (1, 4) := Some (newPiece BLACK 1 4)), currentPlayer = RED\<rparr> 2 1 0 3))) 1 2 = None \<and>
   board (snd (executeMove \<lparr>board = newBoard((2, 1) := Some (newPiece RED 2 1),
       (1, 2) := Some (newPiece BLACK 1 2),
       (1, 4) := Some (newPiece BLACK 1 4)), currentPlayer = RED\<rparr> 2 1 0 3)) (1, 4)
     = Some (newPiece BLACK 1 4)"
proof -
  let ?g = "\<lparr>board = newBoard((2, 1) := Some (newPiece RED 2 1), (1, 2) := Some (newPiece BLACK 1 2),
       (1, 4) := Some (newPiece BLACK 1 4)), currentPlayer = RED\<rparr>"
  have l: "specLegalMove ?g 2 1 0 3"
    by (simp add: specLegalMove_def specJumpLegal_def getPiece_def isInBounds_def BOARD_SIZE_def
        newBoard_def newPiece_def specDirectionOk_def)
  have c: "currentPlayer ?g \<noteq> NONE" by simp
  have p: "getPiece (board ?g) 2 1 = Some (newPiece RED 2 1)"
    by (simp add: getPiece_def BOARD_SIZE_def)
  have k: "\<not> fst (executeMove ?g 2 1 0 3)" by code_simp
  note t = move_execution_order [OF l c p]
  have "\<not> fst (executeMove ?g 2 1 0 3) \<longrightarrow>
      getPiece (board (snd (executeMove ?g 2 1 0 3))) 0 3 =
        Some ((setPosition (newPiece RED 2 1) 0 3)
          \<lparr>isKing := isKing (newPiece RED 2 1) \<or> (owner (newPiece RED 2 1) = RED \<and> (0::int) = 0) \<or>
             (owner (newPiece RED 2 1) = BLACK \<and> (0::int) = 7)\<rparr>) \<and>
      currentPlayer (snd (executeMove ?g 2 1 0 3)) = specOpponent (currentPlayer ?g)"
    by (rule conjunct1 [OF conjunct2 [OF conjunct2 [OF t]]])
  with k have "getPiece (board (snd (executeMove ?g 2 1 0 3))) 0 3 =
        Some ((setPosition (newPiece RED 2 1) 0 3)
          \<lparr>isKing := isKing (newPiece RED 2 1) \<or> (owner (newPiece RED 2 1) = RED \<and> (0::int) = 0) \<or>
             (owner (newPiece RED 2 1) = BLACK \<and> (0::int) = 7)\<rparr>) \<and>
      currentPlayer (snd (executeMove ?g 2 1 0 3)) = specOpponent (currentPlayer ?g)"
    by (rule rev_mp)
  then have r: "getPiece (board (snd (executeMove ?g 2 1 0 3))) 0 3
       = Some \<lparr>owner = RED, isKing = True, row = 0, col = 3\<rparr> \<and>
     currentPlayer (snd (executeMove ?g 2 1 0 3)) = BLACK"
    by (simp add: newPiece_def setPosition_def)
  note rest = conjunct2 [OF conjunct2 [OF conjunct2 [OF conjunct2 [OF conjunct2 [OF t]]]]]
  have src: "getPiece (board (snd (executeMove ?g 2 1 0 3))) 2 1 = None"
    by (rule conjunct1 [OF rest])
  have "\<bar>0 - 2\<bar> = (2::int) \<longrightarrow>
      (\<exists>q. getPiece (board ?g) ((2 + 0) div 2) ((1 + 3) div 2) = Some q \<and>
           owner q = specOpponent (currentPlayer ?g)) \<and>
      getPiece (board (snd (executeMove ?g 2 1 0 3))) ((2 + 0) div 2) ((1 + 3) div 2) = None"
    by (rule conjunct1 [OF conjunct2 [OF rest]])
  then have mid: "getPiece (board (snd (executeMove ?g 2 1 0 3))) 1 2 = None"
    by simp
  have "\<forall>r c. (r, c) \<noteq> (2, 1) \<and> (r, c) \<noteq> (0, 3) \<and>
      \<not> (\<bar>0 - 2\<bar> = (2::int) \<and> (r, c) = ((2 + 0) div 2, (1 + 3) div 2))
      \<longrightarrow> board (snd (executeMove ?g 2 1 0 3)) (r, c) = board ?g (r, c)"
    by (rule conjunct2 [OF conjunct2 [OF rest]])
  then have "(1::int, 4::int) \<noteq> (2, 1) \<and> (1::int, 4::int) \<noteq> (0, 3) \<and>
      \<not> (\<bar>0 - 2\<bar> = (2::int) \<and> (1::int, 4::int) = ((2 + 0) div 2, (1 + 3) div 2))
      \<longrightarrow> board (snd (executeMove ?g 2 1 0 3)) (1, 4) = board ?g (1, 4)"
    by blast
  then have other: "board (snd (executeMove ?g 2 1 0 3)) (1, 4) = Some (newPiece BLACK 1 4)"
    by simp
  from l c p k r src mid other show ?thesis by blast
qed

section \<open>The board invariant\<close>

lemma boardInvariant_iff:
  "boardInvariant b \<longleftrightarrow>
     (\<forall>r c p. isInBounds r c \<longrightarrow> b (r, c) = Some p \<longrightarrow> row p = r \<and> col p = c \<and> (r + c) mod 2 \<noteq> 0)"
  unfolding boardInvariant_def set_allCells
  by (auto simp: getPiece_inBounds split: option.splits)

lemma boardInvariantD:
  assumes "boardInvariant b" and "isInBounds r c" and "b (r, c) = Some p"
  shows "row p = r \<and> col p = c \<and> (r + c) mod 2 \<noteq> 0"
  using assms(1) [unfolded boardInvariant_iff, rule_format, OF assms(2,3)] .

lemma set_cells: "set (cells rs) = {(r, c). r \<in> set rs \<and> 0 \<le> c \<and> c \<le> 7}"
  by (force simp: cells_def BOARD_SIZE_def)

lemma fold_clear: "fold (\<lambda>rc g. g(rc := None)) xs b rc = (if rc \<in> set xs then None else b rc)"
  by (induction xs arbitrary: b) auto

lemma fold_place:
  "fold (\<lambda>(r, c) g. if (r + c) mod 2 \<noteq> 0 then g((r, c) := Some (newPiece pl r c)) else g) xs b (r, c)
     = (if (r, c) \<in> set xs \<and> (r + c) mod 2 \<noteq> 0 then Some (newPiece pl r c) else b (r, c))"
  by (induction xs arbitrary: b) (auto split: prod.splits)

lemma placePieces_cell:
  "placePieces pl rs b (r, c) =
     (if r \<in> set rs \<and> 0 \<le> c \<and> c \<le> 7 \<and> (r + c) mod 2 \<noteq> 0 then Some (newPiece pl r c)
      else b (r, c))"
  unfolding placePieces_def fold_place set_cells by simp

lemma initializeBoard_cell:
  assumes "isInBounds r c"
  shows "initializeBoard b (r, c) =
     (if (r + c) mod 2 \<noteq> 0 \<and> 5 \<le> r then Some (newPiece RED r c)
      else if (r + c) mod 2 \<noteq> 0 \<and> r \<le> 2 then Some (newPiece BLACK r c)
      else None)"
  using assms
  by (simp add: initializeBoard_def Let_def placePieces_cell fold_clear set_allCells
      isInBounds_def BOARD_SIZE_def)

lemma boardInvariant_initializeBoard: "boardInvariant (initializeBoard b)"
  unfolding boardInvariant_iff
proof (intro allI impI)
  fix r c p
  assume ib: "isInBounds r c" and "initializeBoard b (r, c) = Some p"
  then have "(if (r + c) mod 2 \<noteq> 0 \<and> 5 \<le> r then Some (newPiece RED r c)
      else if (r + c) mod 2 \<noteq> 0 \<and> r \<le> 2 then Some (newPiece BLACK r c)
      else None) = Some p"
    by (simp only: initializeBoard_cell [OF ib])
  then have "(r + c) mod 2 \<noteq> 0 \<and> (p = newPiece RED r c \<or> p = newPiece BLACK r c)"
    by (simp split: if_splits)
  then show "row p = r \<and> col p = c \<and> (r + c) mod 2 \<noteq> 0"
    by (auto simp: newPiece_def)
qed

lemma boardInvariant_removePiece:
  assumes "boardInvariant b"
  shows "boardInvariant (removePiece b r c)"
  unfolding boardInvariant_iff
proof (intro allI impI)
  fix r' c' q
  assume ib': "isInBounds r' c'" and "removePiece b r c (r', c') = Some q"
  then have "(if (r', c') = (r, c) then None else b (r', c')) = Some q"
    by (simp only: removePiece_cell)
  then have "b (r', c') = Some q"
    by (cases "r' = r \<and> c' = c") simp_all
  with assms ib' show "row q = r' \<and> col q = c' \<and> (r' + c') mod 2 \<noteq> 0"
    by (rule boardInvariantD)
qed

lemma diagonal_parity:
  assumes "\<bar>r2 - r1\<bar> = \<bar>c2 - c1\<bar>" and "(r1 + c1) mod 2 \<noteq> (0::int)"
  shows "(r2 + c2) mod 2 \<noteq> 0"
proof -
  from assms(1) consider "r2 = r1 + (c2 - c1)" | "r2 = r1 - (c2 - c1)"
    by (cases "0 \<le> r2 - r1"; cases "0 \<le> c2 - c1") simp_all
  then show ?thesis
  proof cases
    case 1
    with assms(2) show ?thesis by presburger
  next
    case 2
    with assms(2) show ?thesis by presburger
  qed
qed

lemma boardInvariant_movePiece:
  assumes inv: "boardInvariant b" and gp: "getPiece b r1 c1 = Some p"
    and geo: "\<bar>r2 - r1\<bar> = \<bar>c2 - c1\<bar>"
  shows "boardInvariant (movePiece b r1 c1 r2 c2)"
proof -
  have cell: "b (r1, c1) = Some p" using gp by (rule getPiece_Some_cell)
  have ib: "isInBounds r1 c1" using gp by (rule getPiece_Some_inBounds)
  note mv = movePiece_cell [of b r1 c1 p r2 c2, OF cell]
  have "(r1 + c1) mod 2 \<noteq> 0" using boardInvariantD [OF inv ib cell] by simp
  with geo have dark: "(r2 + c2) mod 2 \<noteq> 0" by (rule diagonal_parity)
  show ?thesis
    unfolding boardInvariant_iff
  proof (intro allI impI)
    fix r c q
    assume "isInBounds r c" and q: "movePiece b r1 c1 r2 c2 (r, c) = Some q"
    show "row q = r \<and> col q = c \<and> (r + c) mod 2 \<noteq> 0"
    proof (cases "r = r1 \<and> c = c1")
      case True
      with q show ?thesis by (simp add: mv)
    next
      case notsrc: False
      show ?thesis
      proof (cases "r = r2 \<and> c = c2")
        case True
        with q notsrc have "Some (setPosition p r2 c2) = Some q"
          by (auto simp: mv split: if_splits)
        then have "q = setPosition p r2 c2" by simp
        with True dark show ?thesis by (simp add: setPosition_def)
      next
        case False
        with q notsrc have "b (r, c) = Some q"
          by (auto simp: mv split: if_splits)
        with inv \<open>isInBounds r c\<close> show ?thesis by (rule boardInvariantD)
      qed
    qed
  qed
qed

lemma boardInvariant_specPromote:
  assumes "boardInvariant (board g)"
  shows "boardInvariant (board (specPromote g r c))"
proof (cases "getPiece (board g) r c")
  case None
  with assms show ?thesis by (simp add: specPromote_def)
next
  case (Some p)
  have cell: "board g (r, c) = Some p" using Some by (rule getPiece_Some_cell)
  have ib: "isInBounds r c" using Some by (rule getPiece_Some_inBounds)
  from assms ib cell have pos: "row p = r \<and> col p = c \<and> (r + c) mod 2 \<noteq> 0"
    by (rule boardInvariantD)
  show ?thesis
  proof (cases "(owner p = RED \<and> r = 0) \<or> (owner p = BLACK \<and> r = 7)")
    case False
    with Some have "specPromote g r c = g" by (auto simp: specPromote_def)
    with assms show ?thesis by simp
  next
    case True
    with Some have b: "board (specPromote g r c) = (board g)((r, c) := Some (p\<lparr>isKing := True\<rparr>))"
      by (auto simp: specPromote_def)
    show ?thesis
      unfolding b boardInvariant_iff
    proof (intro allI impI)
      fix r' c' q
      assume ib': "isInBounds r' c'" and q: "((board g)((r, c) := Some (p\<lparr>isKing := True\<rparr>))) (r', c') = Some q"
      show "row q = r' \<and> col q = c' \<and> (r' + c') mod 2 \<noteq> 0"
      proof (cases "r' = r \<and> c' = c")
        case True
        with q have "q = p\<lparr>isKing := True\<rparr>" by simp
        with pos True show ?thesis by simp
      next
        case False
        with q have "board g (r', c') = Some q" by simp
        with assms ib' show ?thesis by (rule boardInvariantD)
      qed
    qed
  qed
qed

lemma boardInvariant_specApplyMove:
  assumes inv: "boardInvariant (board g)" and legal: "specLegalMove g r1 c1 r2 c2"
  shows "boardInvariant (board (snd (specApplyMove g r1 c1 r2 c2)))"
proof -
  from legal obtain p where gp: "getPiece (board g) r1 c1 = Some p"
    and geo: "\<bar>r2 - r1\<bar> = \<bar>c2 - c1\<bar>"
    by (auto simp: specLegalMove_def specJumpLegal_def specSimpleLegal_def split: option.splits)
  have m: "boardInvariant (board (specRelocate g r1 c1 r2 c2))"
    using boardInvariant_movePiece [OF inv gp geo] by (simp add: specRelocate_def)
  then have c: "boardInvariant (board (specRemoveCaptured (specRelocate g r1 c1 r2 c2) r1 c1 r2 c2))"
    by (simp add: specRemoveCaptured_def boardInvariant_removePiece)
  then show ?thesis
    using boardInvariant_specPromote [OF c, of r2 c2]
    by (simp add: specApplyMove_def Let_def specFlip_def)
qed

lemma game_beginTurn: "game (beginTurn g) = g"
  by (simp add: beginTurn_def Let_def)

lemma boardInvariant_submitMove:
  assumes inv: "boardInvariant (board g)" and cur: "currentPlayer g \<noteq> NONE"
    and ex: "submitMove f g r1 c1 r2 c2 = (out, g')"
  shows "boardInvariant (board g')"
proof (cases out)
  case (Rejected why)
  with ex have "g' = g" using submitMove_rejected by blast
  with inv show ?thesis by simp
next
  case (Executed k)
  with ex have e: "submitMove f g r1 c1 r2 c2 = (Executed k, g')" by simp
  have legal: "specLegalMove g r1 c1 r2 c2" using e cur by (rule submitMove_executed_legal)
  have "executeMove g r1 c1 r2 c2 = (k, g')" using submitMove_executed [OF e] by simp
  then have "g' = snd (specApplyMove g r1 c1 r2 c2)"
    using executeMove_eq_spec [OF legal cur] by simp
  with boardInvariant_specApplyMove [OF inv legal] show ?thesis by simp
qed

lemma currentPlayer_submitMove:
  assumes cur: "currentPlayer g \<noteq> NONE" and ex: "submitMove f g r1 c1 r2 c2 = (out, g')"
  shows "currentPlayer g' \<noteq> NONE"
proof (cases out)
  case (Rejected why)
  with ex have "g' = g" using submitMove_rejected by blast
  with cur show ?thesis by simp
next
  case (Executed k)
  with ex have e: "submitMove f g r1 c1 r2 c2 = (Executed k, g')" by simp
  from submitMove_executed [OF e] have x: "executeMove g r1 c1 r2 c2 = (k, g')" by simp
  have "currentPlayer g' = currentPlayer g \<or> currentPlayer g' = (if currentPlayer g = RED then BLACK else RED)"
    using x
    by (auto simp: executeMove_def Let_def switchPlayer_def checkKinging_eq_spec
        specPromote_currentPlayer split: if_splits)
  with cur show ?thesis by (auto split: if_splits)
qed

lemma runInvariant_beginTurn:
  "boardInvariant (board g) \<Longrightarrow> currentPlayer g \<noteq> NONE \<Longrightarrow> runInvariant (beginTurn g)"
  by (simp add: runInvariant_def game_beginTurn)

lemma runInvariant_runStep:
  assumes "runInvariant s"
  shows "runInvariant (runStep s inp)"
proof (cases "phase s")
  case (GameOver w)
  with assms show ?thesis by (simp add: runStep_def)
next
  case Exited
  with assms show ?thesis by (simp add: runStep_def)
next
  case (AwaitingMove f)
  show ?thesis
  proof (cases inp)
    case ExitLine
    with AwaitingMove assms show ?thesis by (simp add: runStep_def runInvariant_def)
  next
    case (MoveLine r1 c1 r2 c2)
    obtain out g' where sm: "submitMove f (game s) r1 c1 r2 c2 = (out, g')"
      by (cases "submitMove f (game s) r1 c1 r2 c2")
    from assms have inv: "boardInvariant (board (game s))" and cur: "currentPlayer (game s) \<noteq> NONE"
      by (simp_all add: runInvariant_def)
    have inv': "boardInvariant (board g')" using inv cur sm by (rule boardInvariant_submitMove)
    have cur': "currentPlayer g' \<noteq> NONE" using cur sm by (rule currentPlayer_submitMove)
    show ?thesis
    proof (cases out)
      case (Rejected why)
      with AwaitingMove MoveLine sm inv' cur' show ?thesis
        by (simp add: runStep_def runInvariant_def)
    next
      case (Executed k)
      with AwaitingMove MoveLine sm inv' cur' runInvariant_beginTurn [OF inv' cur'] show ?thesis
        by (cases k) (simp_all add: runStep_def runInvariant_def)
    qed
  qed
qed

lemma runInvariant_startRun: "runInvariant startRun"
  unfolding startRun_def
  by (rule runInvariant_beginTurn) (simp_all add: boardInvariant_initializeBoard newGame_def)

lemma runInvariant_run: "runInvariant (run inputs)"
proof (induction inputs rule: rev_induct)
  case Nil
  show ?case by (simp add: run_def runInvariant_startRun)
next
  case (snoc x xs)
  then show ?case by (simp add: run_def runInvariant_runStep)
qed

subsection \<open>The invariant in every reachable state\<close>

text \<open>
  Claim C8. The board invariant (an occupied slot holds a piece that stores the slot's
  coordinates; no light square is occupied) is established by \<^verbatim>\<open>initializeBoard\<close>, is
  preserved by every move the turn loop applies (simple move or jump, with its capture
  removal and promotion) and by \<^verbatim>\<open>removePiece\<close>, and so holds in every state that
  \<^verbatim>\<open>run\<close> reaches from the start of the game, whatever the input lines.
\<close>

theorem board_invariant_reachable:
  "boardInvariant (initializeBoard b) \<and>
   (\<forall>f g r1 c1 r2 c2 k g'.
      boardInvariant (board g) \<and> currentPlayer g \<noteq> NONE \<and>
      submitMove f g r1 c1 r2 c2 = (Executed k, g') \<longrightarrow> boardInvariant (board g')) \<and>
   (boardInvariant b' \<longrightarrow> boardInvariant (removePiece b' r c)) \<and>
   boardInvariant (board (game (run inputs)))"
proof (intro conjI allI impI)
  show "boardInvariant (initializeBoard b)" by (rule boardInvariant_initializeBoard)
next
  fix f g r1 c1 r2 c2 k g'
  assume "boardInvariant (board g) \<and> currentPlayer g \<noteq> NONE \<and>
      submitMove f g r1 c1 r2 c2 = (Executed k, g')"
  then show "boardInvariant (board g')" using boardInvariant_submitMove by blast
next
  assume "boardInvariant b'"
  then show "boardInvariant (removePiece b' r c)" by (rule boardInvariant_removePiece)
next
  show "boardInvariant (board (game (run inputs)))"
    using runInvariant_run [of inputs] by (simp add: runInvariant_def)
qed

theorem board_invariant_reachable_witness:
  "boardInvariant (board \<lparr>board = initializeBoard newBoard, currentPlayer = RED\<rparr>) \<and>
   currentPlayer \<lparr>board = initializeBoard newBoard, currentPlayer = RED\<rparr> \<noteq> NONE \<and>
   fst (submitMove False \<lparr>board = initializeBoard newBoard, currentPlayer = RED\<rparr> 5 0 4 1)
     = Executed False \<and>
   boardInvariant (board (snd (submitMove False
       \<lparr>board = initializeBoard newBoard, currentPlayer = RED\<rparr> 5 0 4 1)))"
proof -
  let ?g = "\<lparr>board = initializeBoard newBoard, currentPlayer = RED\<rparr>"
  note t = board_invariant_reachable [of newBoard newBoard 0 0 "[]"]
  have i: "boardInvariant (board ?g)" using conjunct1 [OF t] by simp
  have c: "currentPlayer ?g \<noteq> NONE" by simp
  have k: "fst (submitMove False ?g 5 0 4 1) = Executed False" by code_simp
  then have e: "submitMove False ?g 5 0 4 1 = (Executed False, snd (submitMove False ?g 5 0 4 1))"
    by (cases "submitMove False ?g 5 0 4 1") simp
  have "\<forall>f g r1 c1 r2 c2 k g'.
      boardInvariant (board g) \<and> currentPlayer g \<noteq> NONE \<and>
      submitMove f g r1 c1 r2 c2 = (Executed k, g') \<longrightarrow> boardInvariant (board g')"
    by (rule conjunct1 [OF conjunct2 [OF t]])
  with i c e have "boardInvariant (board (snd (submitMove False ?g 5 0 4 1)))" by blast
  with i c k show ?thesis by blast
qed

section \<open>The run from the start of the game\<close>

lemma run_Nil: "run [] = startRun"
  by (simp add: run_def)

lemma run_single: "run [inp] = runStep startRun inp"
  by (simp add: run_def)

lemma run_snoc: "run (inputs @ [inp]) = runStep (run inputs) inp"
  by (simp add: run_def)

lemma game_startRun: "game startRun = \<lparr>board = initializeBoard newBoard, currentPlayer = RED\<rparr>"
  by (simp add: startRun_def game_beginTurn newGame_def)

lemma runStep_game_changed:
  assumes "game (runStep s (MoveLine r1 c1 r2 c2)) \<noteq> game s"
  shows "\<exists>p. getPiece (board (game s)) r1 c1 = Some p \<and> owner p = currentPlayer (game s)"
proof (cases "phase s")
  case (GameOver w)
  with assms show ?thesis by (simp add: runStep_def)
next
  case Exited
  with assms show ?thesis by (simp add: runStep_def)
next
  case (AwaitingMove f)
  obtain out g' where sm: "submitMove f (game s) r1 c1 r2 c2 = (out, g')"
    by (cases "submitMove f (game s) r1 c1 r2 c2")
  show ?thesis
  proof (cases out)
    case (Rejected why)
    with sm have "g' = game s" using submitMove_rejected by blast
    with AwaitingMove sm Rejected assms show ?thesis by (simp add: runStep_def)
  next
    case (Executed k)
    with sm have "submitMove f (game s) r1 c1 r2 c2 = (Executed k, g')" by simp
    from submitMove_executed [OF this] show ?thesis by blast
  qed
qed

subsection \<open>The first move\<close>

text \<open>
  Claim C9. A newly constructed game has Red to move, and so has the game when
  \<^verbatim>\<open>run\<close> waits for its first input; a first input line that changes the game moves
  a piece of Red.
\<close>

theorem red_moves_first:
  "currentPlayer newGame = RED \<and>
   currentPlayer (game (run [])) = RED \<and>
   (\<forall>r1 c1 r2 c2. game (run [MoveLine r1 c1 r2 c2]) \<noteq> game (run []) \<longrightarrow>
      (\<exists>p. getPiece (board (game (run []))) r1 c1 = Some p \<and> owner p = RED))"
proof (intro conjI allI impI)
  show "currentPlayer newGame = RED" by (simp add: newGame_def)
  show "currentPlayer (game (run [])) = RED" by (simp add: run_Nil game_startRun)
next
  fix r1 c1 r2 c2
  assume "game (run [MoveLine r1 c1 r2 c2]) \<noteq> game (run [])"
  then have "game (runStep startRun (MoveLine r1 c1 r2 c2)) \<noteq> game startRun"
    by (simp add: run_Nil run_single)
  from runStep_game_changed [OF this]
  show "\<exists>p. getPiece (board (game (run []))) r1 c1 = Some p \<and> owner p = RED"
    by (simp add: run_Nil game_startRun)
qed

theorem red_moves_first_witness:
  "game (run [MoveLine 5 0 4 1]) \<noteq> game (run []) \<and>
   (\<exists>p. getPiece (board (game (run []))) 5 0 = Some p \<and> owner p = RED)"
proof -
  have a: "getPiece (board (game (run [MoveLine 5 0 4 1]))) 4 1
      = Some \<lparr>owner = RED, isKing = False, row = 4, col = 1\<rparr>"
    by code_simp
  have b: "getPiece (board (game (run []))) 4 1 = None"
    by code_simp
  from a b have n: "game (run [MoveLine 5 0 4 1]) \<noteq> game (run [])" by auto
  with red_moves_first show ?thesis by blast
qed

subsection \<open>The flag of the turn loop\<close>

lemma continuation_keeps_jumps:
  assumes cur: "currentPlayer g \<noteq> NONE"
    and e: "submitMove f g r1 c1 r2 c2 = (Executed True, g')"
  shows "getAllPossibleJumps g \<noteq> [] \<and> getAllPossibleJumps g' \<noteq> []"
proof
  note ex = submitMove_executed [OF e]
  from ex have x: "executeMove g r1 c1 r2 c2 = (True, g')" by simp
  have jump: "\<bar>r2 - r1\<bar> = 2"
    using executeMove_simple_False [of r2 r1 g c1 c2] x by auto
  with ex have "isInBounds r2 c2 \<and>
      (\<exists>p. getPiece (board g) r1 c1 = Some p \<and> owner p = currentPlayer g) \<and>
      isJumpValid g r1 c1 r2 c2"
    using parse_target_inBounds by auto
  then have "mkMove r1 c1 r2 c2 \<in> set (getAllPossibleJumps g)"
    by (simp only: in_allJumps_mk)
  then show "getAllPossibleJumps g \<noteq> []" by auto
next
  from submitMove_executed [OF e] have x: "executeMove g r1 c1 r2 c2 = (True, g')" by simp
  have legal: "specLegalMove g r1 c1 r2 c2" using e cur by (rule submitMove_executed_legal)
  let ?g2 = "specRemoveCaptured (specRelocate g r1 c1 r2 c2) r1 c1 r2 c2"
  from x have sp: "specApplyMove g r1 c1 r2 c2 = (True, g')"
    using executeMove_eq_spec [OF legal cur] by simp
  then have cont: "specContinuation ?g2 r1 r2 c2" and g': "g' = ?g2"
    by (auto simp: specApplyMove_def Let_def split: if_splits)
  have cur2: "currentPlayer ?g2 \<noteq> NONE"
    using cur by (simp add: specRemoveCaptured_def specRelocate_def)
  from cont obtain r3 c3 where "specJumpLegal ?g2 r2 c2 r3 c3"
    by (auto simp: specContinuation_def)
  then have "isInBounds r3 c3 \<and>
      (\<exists>p. getPiece (board ?g2) r2 c2 = Some p \<and> owner p = currentPlayer ?g2) \<and>
      isJumpValid ?g2 r2 c2 r3 c3"
    by (simp only: isJumpValid_guarded_iff [OF cur2])
  then have "mkMove r2 c2 r3 c3 \<in> set (getAllPossibleJumps ?g2)"
    by (simp only: in_allJumps_mk)
  then show "getAllPossibleJumps g' \<noteq> []" unfolding g' by auto
qed

lemma flagFresh_beginTurn: "flagFresh (beginTurn g)"
  by (simp add: flagFresh_def beginTurn_def Let_def)

lemma flagFresh_runStep:
  assumes fresh: "flagFresh s" and inv: "runInvariant s"
  shows "flagFresh (runStep s inp)"
proof (cases "phase s")
  case (GameOver w)
  with fresh show ?thesis by (simp add: runStep_def)
next
  case Exited
  with fresh show ?thesis by (simp add: runStep_def)
next
  case (AwaitingMove f)
  show ?thesis
  proof (cases inp)
    case ExitLine
    with AwaitingMove show ?thesis by (simp add: runStep_def flagFresh_def)
  next
    case (MoveLine r1 c1 r2 c2)
    obtain out g' where sm: "submitMove f (game s) r1 c1 r2 c2 = (out, g')"
      by (cases "submitMove f (game s) r1 c1 r2 c2")
    from inv have cur: "currentPlayer (game s) \<noteq> NONE" by (simp add: runInvariant_def)
    from fresh AwaitingMove have f: "f = (getAllPossibleJumps (game s) \<noteq> [])"
      by (simp add: flagFresh_def)
    show ?thesis
    proof (cases out)
      case (Rejected why)
      with sm have "g' = game s" using submitMove_rejected by blast
      with AwaitingMove MoveLine sm Rejected f show ?thesis
        by (simp add: runStep_def flagFresh_def)
    next
      case (Executed k)
      show ?thesis
      proof (cases k)
        case False
        with AwaitingMove MoveLine sm Executed show ?thesis
          by (simp add: runStep_def flagFresh_beginTurn)
      next
        case True
        with sm Executed have "submitMove f (game s) r1 c1 r2 c2 = (Executed True, g')" by simp
        from continuation_keeps_jumps [OF cur this] f
        have "f = (getAllPossibleJumps g' \<noteq> [])" by simp
        with AwaitingMove MoveLine sm Executed True show ?thesis
          by (simp add: runStep_def flagFresh_def)
      qed
    qed
  qed
qed

lemma flagFresh_run: "flagFresh (run inputs)"
proof (induction inputs rule: rev_induct)
  case Nil
  show ?case by (simp add: run_def startRun_def flagFresh_beginTurn)
next
  case (snoc x xs)
  have "run (xs @ [x]) = runStep (run xs) x" by (simp add: run_def)
  with snoc runInvariant_run [of xs] show ?case by (simp add: flagFresh_runStep)
qed

lemma run_flag_is_current:
  "phase (run inputs) = AwaitingMove f \<Longrightarrow> f = (getAllPossibleJumps (game (run inputs)) \<noteq> [])"
  using flagFresh_run [of inputs] by (simp add: flagFresh_def)

subsection \<open>Mandatory capture\<close>

lemma parse_simple:
  "\<bar>r2 - r1\<bar> = (1::int) \<Longrightarrow> parseInputChecks r1 c1 r2 c2 \<longleftrightarrow> isInBounds r1 c1 \<and> isInBounds r2 c2"
  by (auto simp: parseInputChecks_def)

lemma submitMove_forced_simple:
  assumes "\<bar>r2 - r1\<bar> \<noteq> 2"
  shows "submitMove True g r1 c1 r2 c2 =
     (Rejected (if \<not> parseInputChecks r1 c1 r2 c2 then InvalidInput
                else if (\<exists>p. getPiece (board g) r1 c1 = Some p \<and> owner p = currentPlayer g)
                then JumpMandatory else InvalidSelection), g)"
  using assms by (auto simp: submitMove_def Let_def split: option.splits)

text \<open>
  Claim C1, as amended. In every game state in which the side to move has a legal jump,
  a submitted one-square diagonal candidate is rejected and the state is unchanged. The
  reason is the capture-mandatory one when the source square holds a piece of the side to
  move; the selection check of the turn loop comes first, so a candidate whose source is
  off the board, empty or held by the opponent is rejected as invalid input or invalid
  selection instead. Every candidate that is executed in such a state is a valid jump.
  In \<^verbatim>\<open>run\<close>, whenever the loop waits for a move in such a state its flag
  \<open>jumpIsForced\<close> is set, and the line of a simple move leaves the loop where it was.
\<close>

theorem forced_capture_rejects_simple:
  assumes "getAllPossibleJumps g \<noteq> []" and "\<bar>r2 - r1\<bar> = 1" and "\<bar>c2 - c1\<bar> = 1"
  shows "submitMove (getAllPossibleJumps g \<noteq> []) g r1 c1 r2 c2 =
           (Rejected (if \<not> (isInBounds r1 c1 \<and> isInBounds r2 c2) then InvalidInput
                      else if (\<exists>p. getPiece (board g) r1 c1 = Some p \<and> owner p = currentPlayer g)
                      then JumpMandatory else InvalidSelection), g) \<and>
         (\<forall>a b c d k g'. submitMove (getAllPossibleJumps g \<noteq> []) g a b c d = (Executed k, g')
            \<longrightarrow> \<bar>c - a\<bar> = 2 \<and> isJumpValid g a b c d) \<and>
         (\<forall>inputs f. game (run inputs) = g \<and> phase (run inputs) = AwaitingMove f
            \<longrightarrow> f \<and> run (inputs @ [MoveLine r1 c1 r2 c2]) = run inputs)"
proof (intro conjI)
  have nj: "\<bar>r2 - r1\<bar> \<noteq> 2" using assms(2) by simp
  show rej: "submitMove (getAllPossibleJumps g \<noteq> []) g r1 c1 r2 c2 =
           (Rejected (if \<not> (isInBounds r1 c1 \<and> isInBounds r2 c2) then InvalidInput
                      else if (\<exists>p. getPiece (board g) r1 c1 = Some p \<and> owner p = currentPlayer g)
                      then JumpMandatory else InvalidSelection), g)"
    using submitMove_forced_simple [OF nj, of g c1 c2] assms(1) parse_simple [OF assms(2), of c1 c2]
    by simp
  show "\<forall>inputs f. game (run inputs) = g \<and> phase (run inputs) = AwaitingMove f
            \<longrightarrow> f \<and> run (inputs @ [MoveLine r1 c1 r2 c2]) = run inputs"
  proof (intro allI impI)
    fix inputs f
    assume a: "game (run inputs) = g \<and> phase (run inputs) = AwaitingMove f"
    then have f: "f = (getAllPossibleJumps g \<noteq> [])"
      using run_flag_is_current [of inputs f] by simp
    with assms(1) have "f" by simp
    moreover have "runStep (run inputs) (MoveLine r1 c1 r2 c2) = run inputs"
      using a f rej by (simp add: runStep_def)
    ultimately show "f \<and> run (inputs @ [MoveLine r1 c1 r2 c2]) = run inputs"
      by (simp add: run_snoc)
  qed
next
  show "\<forall>a b c d k g'. submitMove (getAllPossibleJumps g \<noteq> []) g a b c d = (Executed k, g')
            \<longrightarrow> \<bar>c - a\<bar> = 2 \<and> isJumpValid g a b c d"
  proof (intro allI impI)
    fix a b c d k g'
    assume "submitMove (getAllPossibleJumps g \<noteq> []) g a b c d = (Executed k, g')"
    from submitMove_executed [OF this] assms(1) show "\<bar>c - a\<bar> = 2 \<and> isJumpValid g a b c d"
      by (auto split: if_splits)
  qed
qed

theorem forced_capture_rejects_simple_witness:
  "getAllPossibleJumps \<lparr>board = newBoard((5, 2) := Some (newPiece RED 5 2), (4, 3) := Some (newPiece BLACK 4 3),
       (5, 6) := Some (newPiece RED 5 6)), currentPlayer = RED\<rparr> \<noteq> [] \<and>
   \<bar>4 - 5\<bar> = (1::int) \<and> \<bar>5 - 6\<bar> = (1::int) \<and>
   submitMove True \<lparr>board = newBoard((5, 2) := Some (newPiece RED 5 2), (4, 3) := Some (newPiece BLACK 4 3),
       (5, 6) := Some (newPiece RED 5 6)), currentPlayer = RED\<rparr> 5 6 4 5 =
     (Rejected JumpMandatory,
      \<lparr>board = newBoard((5, 2) := Some (newPiece RED 5 2), (4, 3) := Some (newPiece BLACK 4 3),
       (5, 6) := Some (newPiece RED 5 6)), currentPlayer = RED\<rparr>)"
proof -
  let ?g = "\<lparr>board = newBoard((5, 2) := Some (newPiece RED 5 2), (4, 3) := Some (newPiece BLACK 4 3),
       (5, 6) := Some (newPiece RED 5 6)), currentPlayer = RED\<rparr>"
  have j: "getAllPossibleJumps ?g \<noteq> []" by code_simp
  have a: "\<bar>4 - 5\<bar> = (1::int)" and b: "\<bar>5 - 6\<bar> = (1::int)" by simp_all
  have "submitMove (getAllPossibleJumps ?g \<noteq> []) ?g 5 6 4 5 =
           (Rejected (if \<not> (isInBounds 5 6 \<and> isInBounds 4 5) then InvalidInput
                      else if (\<exists>p. getPiece (board ?g) 5 6 = Some p \<and> owner p = currentPlayer ?g)
                      then JumpMandatory else InvalidSelection), ?g)"
    by (rule conjunct1 [OF forced_capture_rejects_simple [OF j a b]])
  then have "submitMove True ?g 5 6 4 5 = (Rejected JumpMandatory, ?g)"
    using j by (simp add: isInBounds_def BOARD_SIZE_def getPiece_def newPiece_def)
  with j a b show ?thesis by blast
qed

text \<open>
  Claim C1 as it was stated, for any simple candidate, fails where the source square is
  empty: Red can jump from (5,2) over (4,3), and the candidate from the empty square (5,6)
  to (4,5) is rejected as an invalid selection, not with the capture-mandatory reason.
\<close>

theorem simple_from_empty_counterexample:
  "getAllPossibleJumps \<lparr>board = newBoard((5, 2) := Some (newPiece RED 5 2), (4, 3) := Some (newPiece BLACK 4 3)),
       currentPlayer = RED\<rparr> \<noteq> [] \<and>
   \<bar>4 - 5\<bar> = (1::int) \<and> \<bar>5 - 6\<bar> = (1::int) \<and>
   fst (submitMove True \<lparr>board = newBoard((5, 2) := Some (newPiece RED 5 2), (4, 3) := Some (newPiece BLACK 4 3)),
       currentPlayer = RED\<rparr> 5 6 4 5) = Rejected InvalidSelection \<and>
   fst (submitMove True \<lparr>board = newBoard((5, 2) := Some (newPiece RED 5 2), (4, 3) := Some (newPiece BLACK 4 3)),
       currentPlayer = RED\<rparr> 5 6 4 5) \<noteq> Rejected JumpMandatory"
proof -
  let ?g = "\<lparr>board = newBoard((5, 2) := Some (newPiece RED 5 2), (4, 3) := Some (newPiece BLACK 4 3)),
       currentPlayer = RED\<rparr>"
  have j: "getAllPossibleJumps ?g \<noteq> []" by code_simp
  have r: "fst (submitMove True ?g 5 6 4 5) = Rejected InvalidSelection" by code_simp
  from j r show ?thesis by simp
qed

subsection \<open>A continuation is not tied to the landing square\<close>

lemma other_piece_run:
  "(let s = run [MoveLine 5 4 4 3, MoveLine 2 7 3 6, MoveLine 6 5 5 4, MoveLine 3 6 4 7,
                 MoveLine 4 3 3 4, MoveLine 2 5 4 3];
        t = runStep s (MoveLine 4 7 6 5)
    in (phase s, currentPlayer (game s), getPossibleJumpsForPiece (game s) 4 3,
        fst (submitMove True (game s) 4 7 6 5), currentPlayer (game t),
        getPiece (board (game t)) 6 5, getPiece (board (game t)) 5 6,
        getPiece (board (game t)) 4 3))
   = (AwaitingMove True, BLACK, [mkMove 4 3 6 5], Executed False, RED,
      Some \<lparr>owner = BLACK, isKing = False, row = 6, col = 5\<rparr>, None,
      Some \<lparr>owner = BLACK, isKing = False, row = 4, col = 3\<rparr>)"
  by code_simp

text \<open>
  Claim C2 asks that, after a jump that requires a continuation, only another jump from
  the landing square be accepted. The program does not do this. From the start of the
  game, after the six lines E6 to D5, H3 to G4, F7 to E6, G4 to H5, D5 to E4 and
  F3 to D5, Black has captured on (3,4), has landed on (4,3), and
  \<^verbatim>\<open>executeMove\<close> has announced that Black must continue jumping from there (the jump
  to (6,5) is open). The next line H5 to F7 is a jump of another Black piece, from
  (4,7) over (5,6): it is executed, the turn passes to Red, and the piece on (4,3) has
  not moved.
\<close>

theorem continuation_other_piece_accepted:
  "phase (run [MoveLine 5 4 4 3, MoveLine 2 7 3 6, MoveLine 6 5 5 4, MoveLine 3 6 4 7,
               MoveLine 4 3 3 4, MoveLine 2 5 4 3]) = AwaitingMove True \<and>
   currentPlayer (game (run [MoveLine 5 4 4 3, MoveLine 2 7 3 6, MoveLine 6 5 5 4, MoveLine 3 6 4 7,
               MoveLine 4 3 3 4, MoveLine 2 5 4 3])) = BLACK \<and>
   getPossibleJumpsForPiece (game (run [MoveLine 5 4 4 3, MoveLine 2 7 3 6, MoveLine 6 5 5 4,
               MoveLine 3 6 4 7, MoveLine 4 3 3 4, MoveLine 2 5 4 3])) 4 3 = [mkMove 4 3 6 5] \<and>
   fst (submitMove True (game (run [MoveLine 5 4 4 3, MoveLine 2 7 3 6, MoveLine 6 5 5 4,
               MoveLine 3 6 4 7, MoveLine 4 3 3 4, MoveLine 2 5 4 3])) 4 7 6 5) = Executed False \<and>
   currentPlayer (game (run [MoveLine 5 4 4 3, MoveLine 2 7 3 6, MoveLine 6 5 5 4, MoveLine 3 6 4 7,
               MoveLine 4 3 3 4, MoveLine 2 5 4 3, MoveLine 4 7 6 5])) = RED \<and>
   getPiece (board (game (run [MoveLine 5 4 4 3, MoveLine 2 7 3 6, MoveLine 6 5 5 4, MoveLine 3 6 4 7,
               MoveLine 4 3 3 4, MoveLine 2 5 4 3, MoveLine 4 7 6 5]))) 6 5
     = Some \<lparr>owner = BLACK, isKing = False, row = 6, col = 5\<rparr> \<and>
   getPiece (board (game (run [MoveLine 5 4 4 3, MoveLine 2 7 3 6, MoveLine 6 5 5 4, MoveLine 3 6 4 7,
               MoveLine 4 3 3 4, MoveLine 2 5 4 3, MoveLine 4 7 6 5]))) 5 6 = None \<and>
   getPiece (board (game (run [MoveLine 5 4 4 3, MoveLine 2 7 3 6, MoveLine 6 5 5 4, MoveLine 3 6 4 7,
               MoveLine 4 3 3 4, MoveLine 2 5 4 3, MoveLine 4 7 6 5]))) 4 3
     = Some \<lparr>owner = BLACK, isKing = False, row = 4, col = 3\<rparr>"
proof -
  have r: "run [MoveLine 5 4 4 3, MoveLine 2 7 3 6, MoveLine 6 5 5 4, MoveLine 3 6 4 7,
               MoveLine 4 3 3 4, MoveLine 2 5 4 3, MoveLine 4 7 6 5]
     = runStep (run [MoveLine 5 4 4 3, MoveLine 2 7 3 6, MoveLine 6 5 5 4, MoveLine 3 6 4 7,
               MoveLine 4 3 3 4, MoveLine 2 5 4 3]) (MoveLine 4 7 6 5)"
    using run_snoc [of "[MoveLine 5 4 4 3, MoveLine 2 7 3 6, MoveLine 6 5 5 4, MoveLine 3 6 4 7,
               MoveLine 4 3 3 4, MoveLine 2 5 4 3]" "MoveLine 4 7 6 5"] by simp
  from other_piece_run show ?thesis
    unfolding r by (simp add: Let_def)
qed

end
